theory Spec2Isabelle
  imports Complex_Main "HOL-Library.AList"
begin

section \<open>The workflow visualizer: data model\<close>

text \<open>
  This theory embeds \<^verbatim>\<open>parseWorkflow\<close> and the effect hook of
  \<^verbatim>\<open>WorkflowVisualizer\<close> (the visualizer component, 361 lines).
  Conventions of the embedding:
  \<^item> a \<^typ>\<open>char\<close> stands for one UTF-16 code unit below 256; the classes \<^verbatim>\<open>\w\<close>
    and \<^verbatim>\<open>\s\<close> of the two regular expressions are given on that range;
  \<^item> JavaScript numbers are reals. Counters and node coordinates are integers and
    half-integers, which doubles hold exactly; the control points of the curves go through
    \<^verbatim>\<open>Math.sqrt\<close> and multiplications by 0.25, 0.5 and 0.6, where the reals stand for
    the rounded doubles;
  \<^item> the fields of \<^verbatim>\<open>VisNode\<close> and \<^verbatim>\<open>VisEdge\<close> carry the prefix \<open>node_\<close> and
    \<open>edge_\<close>, the fields of \<^verbatim>\<open>NextflowProcess\<close> the prefix \<open>proc_\<close>;
  \<^item> a \<^verbatim>\<open>throw\<close> is the left injection of a sum type.
\<close>

record NextflowProcess =
  proc_id :: string
  proc_name :: string
  proc_description :: string
  proc_inputDeclarations :: string
  proc_outputDeclarations :: string
  proc_directiveDeclarations :: string
  proc_script :: string

record VisNode =
  node_id :: string
  node_name :: string
  node_x :: real
  node_y :: real
  node_width :: real
  node_height :: real

record VisEdge =
  edge_id :: string
  edge_source :: string
  edge_target :: string
  edge_startX :: real
  edge_startY :: real
  edge_endX :: real
  edge_endY :: real
  edge_controlX :: real
  edge_controlY :: real

record VisData =
  nodes :: "VisNode list"
  edges :: "VisEdge list"

text \<open>The module-level object \<^verbatim>\<open>canvasSizeForLayout\<close>, read by the layout and written by the effect hook.\<close>

record CanvasSize =
  canvas_width :: real
  canvas_height :: real

record CallInstance =
  call_name :: string
  call_index :: nat
  call_inputs :: string

text \<open>
  \<^verbatim>\<open>callId\<close> is the name, an underscore and the decimal \<open>call_index\<close>; nothing reads it.
\<close>

datatype js_error = TypeError

text \<open>
  The argument \<^verbatim>\<open>workflowContent\<close> at run time: a string, or any other value
  (\<^verbatim>\<open>typeof workflowContent !== 'string'\<close>).
\<close>

datatype workflow_input = Textual string | NonTextual

definition NODE_WIDTH :: real where "NODE_WIDTH = 180"
definition NODE_HEIGHT :: real where "NODE_HEIGHT = 60"
definition X_SPACING :: real where "X_SPACING = 80"
definition Y_SPACING :: real where "Y_SPACING = 100"

definition initialCanvasSize :: CanvasSize where
  "initialCanvasSize = \<lparr>canvas_width = 800, canvas_height = 600\<rparr>"

section \<open>The two regular expressions\<close>

definition isWord :: "char \<Rightarrow> bool" where
  "isWord c \<longleftrightarrow>
     c \<in> set ''abcdefghijklmnopqrstuvwxyzABCDEFGHIJKLMNOPQRSTUVWXYZ0123456789_''"

definition isSpace :: "char \<Rightarrow> bool" where
  "isSpace c \<longleftrightarrow>
     c \<in> set [CHR 0x09, CHR 0x0A, CHR 0x0B, CHR 0x0C, CHR 0x0D, CHR '' '', CHR 0xA0]"

text \<open>
  \<^verbatim>\<open>/(\w+)\s*\(([^)]*)\)/\<close> tried at the head of \<open>s\<close>. Every quantifier is greedy, and
  giving characters back never helps: after the longest run of word characters comes a
  character that is no word character, after the longest run of white space one that is
  no white space, and after the longest run without a close-paren the close-paren or the
  end. The result is the first group, the second group and the text after the match.
\<close>

definition matchCall :: "string \<Rightarrow> (string \<times> string \<times> string) option" where
  "matchCall s =
     (let name = takeWhile isWord s; r1 = dropWhile isSpace (dropWhile isWord s)
      in if name = [] then None
         else (case r1 of
                 [] \<Rightarrow> None
               | c # r2 \<Rightarrow>
                   if c \<noteq> CHR ''('' then None
                   else (case dropWhile (\<lambda>c. c \<noteq> CHR '')'') r2 of
                           [] \<Rightarrow> None
                         | _ # r3 \<Rightarrow> Some (name, takeWhile (\<lambda>c. c \<noteq> CHR '')'') r2, r3))))"

lemma matchCall_shorter: "matchCall s = Some (n, a, r) \<Longrightarrow> length r < length s"
proof -
  assume m: "matchCall s = Some (n, a, r)"
  have drop_le: "length (dropWhile P xs) \<le> length xs" for P and xs :: string
    by (induction xs) auto
  from m obtain c r2 d where
    r1: "dropWhile isSpace (dropWhile isWord s) = c # r2" and
    r3: "dropWhile (\<lambda>c. c \<noteq> CHR '')'') r2 = d # r"
    by (auto simp: matchCall_def Let_def split: list.splits if_splits)
  have "length r < length r2" using drop_le [of "\<lambda>c. c \<noteq> CHR '')''" r2] r3 by simp
  moreover have "length r2 < length s"
    using drop_le [of isSpace "dropWhile isWord s"] drop_le [of isWord s] r1 by simp
  ultimately show ?thesis by simp
qed

text \<open>
  The loop \<^verbatim>\<open>while ((match = processCallRegex.exec(workflowContent)) !== null)\<close> of a
  global expression: each \<^verbatim>\<open>exec\<close> takes the leftmost match at or after
  \<^verbatim>\<open>lastIndex\<close> and moves \<^verbatim>\<open>lastIndex\<close> behind it. \<open>off\<close> is \<^verbatim>\<open>lastIndex\<close>, \<open>s\<close>
  the text from there on; a match is listed with its \<^verbatim>\<open>match.index\<close>.
\<close>

function execCalls :: "nat \<Rightarrow> string \<Rightarrow> (nat \<times> string \<times> string) list" where
  "execCalls off s =
     (if s = [] then []
      else (case matchCall s of
              Some (n, a, r) \<Rightarrow> (off, n, a) # execCalls (off + (length s - length r)) r
            | None \<Rightarrow> execCalls (Suc off) (tl s)))"
  by pat_completeness auto
termination
  by (relation "measure (\<lambda>(off, s). length s)") (auto dest: matchCall_shorter)

declare execCalls.simps [simp del]

text \<open>
  \<^verbatim>\<open>/(\w+)\.out(?:\.\w+)?/\<close> tried at the head of \<open>s\<close>: the longest run of word
  characters, the four characters \<^verbatim>\<open>.out\<close>, and then, when a dot and a word character
  follow, the dot and the longest run of word characters. The result is the first group
  and the text after the match.
\<close>

definition matchRef :: "string \<Rightarrow> (string \<times> string) option" where
  "matchRef s =
     (let name = takeWhile isWord s; r1 = dropWhile isWord s
      in if name = [] then None
         else if take 4 r1 \<noteq> ''.out'' then None
         else (let r2 = drop 4 r1
               in (case r2 of
                     [] \<Rightarrow> Some (name, r2)
                   | c # r3 \<Rightarrow>
                       if c = CHR ''.'' \<and> takeWhile isWord r3 \<noteq> []
                       then Some (name, dropWhile isWord r3)
                       else Some (name, r2))))"

lemma matchRef_shorter: "matchRef s = Some (n, r) \<Longrightarrow> length r < length s"
proof -
  assume m: "matchRef s = Some (n, r)"
  have drop_le: "length (dropWhile P xs) \<le> length xs" for P and xs :: string
    by (induction xs) auto
  from m have t: "take 4 (dropWhile isWord s) = ''.out''"
    by (auto simp: matchRef_def Let_def split: if_splits)
  have len4: "4 \<le> length (dropWhile isWord s)"
    using arg_cong [OF t, of length] by simp
  from m have "r = drop 4 (dropWhile isWord s) \<or>
      (\<exists>c r3. drop 4 (dropWhile isWord s) = c # r3 \<and> r = dropWhile isWord r3)"
    by (auto simp: matchRef_def Let_def split: if_splits list.splits)
  then show ?thesis
  proof
    assume "r = drop 4 (dropWhile isWord s)"
    then show ?thesis using len4 drop_le [of isWord s] by simp
  next
    assume "\<exists>c r3. drop 4 (dropWhile isWord s) = c # r3 \<and> r = dropWhile isWord r3"
    then obtain c r3 where d: "drop 4 (dropWhile isWord s) = c # r3" and r: "r = dropWhile isWord r3"
      by blast
    have "length r3 < length (dropWhile isWord s)"
      using arg_cong [OF d, of length] by simp
    then show ?thesis using r drop_le [of isWord r3] drop_le [of isWord s] by simp
  qed
qed

text \<open>The loop \<^verbatim>\<open>while ((inputMatch = sourceProcessRegex.exec(inputArgs)) !== null)\<close>: the first groups, in order.\<close>

function execRefs :: "string \<Rightarrow> string list" where
  "execRefs s =
     (if s = [] then []
      else (case matchRef s of
              Some (n, r) \<Rightarrow> n # execRefs r
            | None \<Rightarrow> execRefs (tl s)))"
  by pat_completeness auto
termination
  by (relation "measure length") (auto dest: matchRef_shorter)

declare execRefs.simps [simp del]

section \<open>The objects \<^verbatim>\<open>G\<close> and \<^verbatim>\<open>inDegree\<close>\<close>

text \<open>
  Both are object literals \<^verbatim>\<open>{}\<close> used as dictionaries, so a key that is no own
  property is looked up in \<^verbatim>\<open>Object.prototype\<close>, and the key \<^verbatim>\<open>__proto__\<close> is
  the accessor of the prototype itself. The own properties are an association list in
  insertion order.
\<close>

definition objectPrototypeKeys :: "string list" where
  "objectPrototypeKeys =
     [''constructor'', ''__defineGetter__'', ''__defineSetter__'', ''hasOwnProperty'',
      ''__lookupGetter__'', ''__lookupSetter__'', ''isPrototypeOf'', ''propertyIsEnumerable'',
      ''toString'', ''valueOf'', ''__proto__'', ''toLocaleString'']"

text \<open>The methods of \<^verbatim>\<open>Array.prototype\<close> (ECMAScript 2023).\<close>

definition arrayPrototypeKeys :: "string list" where
  "arrayPrototypeKeys =
     [''at'', ''concat'', ''copyWithin'', ''fill'', ''find'', ''findIndex'', ''findLast'',
      ''findLastIndex'', ''lastIndexOf'', ''pop'', ''push'', ''reverse'', ''shift'', ''unshift'',
      ''slice'', ''sort'', ''splice'', ''includes'', ''indexOf'', ''join'', ''keys'', ''entries'',
      ''values'', ''forEach'', ''filter'', ''flat'', ''flatMap'', ''map'', ''every'', ''some'',
      ''reduce'', ''reduceRight'', ''toReversed'', ''toSorted'', ''toSpliced'', ''with'']"

text \<open>
  \<^verbatim>\<open>G\<close>: the own adjacency arrays, and the prototype: \<open>None\<close> is
  \<^verbatim>\<open>Object.prototype\<close>; \<open>Some pa\<close> is the array that the assignment
  \<^verbatim>\<open>G["__proto__"] = []\<close> has put in its place, with the elements pushed since.
\<close>

record GObject =
  G_own :: "(string \<times> string list) list"
  G_proto :: "string list option"

text \<open>What \<^verbatim>\<open>G[k]\<close> evaluates to.\<close>

datatype G_value =
  GUndefined
  | GOwnArray "string list"
  | GProtoArray "string list"
  | GString string
  | GNumber nat
  | GObjectOrFunction

definition isDigit :: "char \<Rightarrow> bool" where
  "isDigit c \<longleftrightarrow> c \<in> set ''0123456789''"

text \<open>A canonical array index: decimal digits without a leading zero.\<close>

definition arrayIndex :: "string \<Rightarrow> nat option" where
  "arrayIndex s =
     (if s = [] \<or> \<not> list_all isDigit s \<or> (1 < length s \<and> hd s = CHR ''0'') then None
      else Some (foldl (\<lambda>n c. 10 * n + (of_char c - 48)) 0 s))"

definition G_get :: "GObject \<Rightarrow> string \<Rightarrow> G_value" where
  "G_get G k =
     (if k = ''__proto__''
      then (case G_proto G of None \<Rightarrow> GObjectOrFunction | Some pa \<Rightarrow> GProtoArray pa)
      else (case map_of (G_own G) k of
              Some xs \<Rightarrow> GOwnArray xs
            | None \<Rightarrow>
                (case G_proto G of
                   None \<Rightarrow> if k \<in> set objectPrototypeKeys then GObjectOrFunction else GUndefined
                 | Some pa \<Rightarrow>
                     if k = ''length'' then GNumber (length pa)
                     else (case arrayIndex k of
                             Some i \<Rightarrow> if i < length pa then GString (pa ! i) else GUndefined
                           | None \<Rightarrow>
                               if k \<in> set arrayPrototypeKeys \<or> k \<in> set objectPrototypeKeys
                               then GObjectOrFunction else GUndefined))))"

text \<open>\<^verbatim>\<open>G[k] = []\<close>: an own property, or the prototype when \<open>k\<close> is \<^verbatim>\<open>__proto__\<close>.\<close>

definition G_init :: "GObject \<Rightarrow> string \<Rightarrow> GObject" where
  "G_init G k =
     (if k = ''__proto__'' then G\<lparr>G_proto := Some []\<rparr>
      else G\<lparr>G_own := AList.update k [] (G_own G)\<rparr>)"

text \<open>\<^verbatim>\<open>x.includes(t)\<close> on a string \<open>x\<close>: \<open>t\<close> occurs in it.\<close>

fun stringIncludes :: "string \<Rightarrow> string \<Rightarrow> bool" where
  "stringIncludes [] t = (t = [])"
| "stringIncludes (c # cs) t = (take (length t) (c # cs) = t \<or> stringIncludes cs t)"

text \<open>
  \<^verbatim>\<open>if (G[s] && !G[s].includes(t)) { G[s].push(t); }\<close>.
  An array answers both calls. A string answers \<^verbatim>\<open>includes\<close> and has no \<^verbatim>\<open>push\<close>;
  a non-zero number, a function and an object have no \<^verbatim>\<open>includes\<close>: calling the
  missing method throws.
\<close>

definition G_link :: "GObject \<Rightarrow> string \<Rightarrow> string \<Rightarrow> js_error + GObject" where
  "G_link G s t =
     (case G_get G s of
        GUndefined \<Rightarrow> Inr G
      | GOwnArray xs \<Rightarrow>
          Inr (if t \<in> set xs then G else G\<lparr>G_own := AList.update s (xs @ [t]) (G_own G)\<rparr>)
      | GProtoArray pa \<Rightarrow>
          Inr (if t \<in> set pa then G else G\<lparr>G_proto := Some (pa @ [t])\<rparr>)
      | GString x \<Rightarrow>
          if x = [] then Inr G else if stringIncludes x t then Inr G else Inl TypeError
      | GNumber n \<Rightarrow> if n = 0 then Inr G else Inl TypeError
      | GObjectOrFunction \<Rightarrow> Inl TypeError)"

text \<open>\<^verbatim>\<open>(G[u] || [])\<close> as the receiver of \<^verbatim>\<open>forEach\<close>: only an array has the method.\<close>

definition G_successors :: "GObject \<Rightarrow> string \<Rightarrow> js_error + string list" where
  "G_successors G u =
     (case G_get G u of
        GUndefined \<Rightarrow> Inr []
      | GOwnArray xs \<Rightarrow> Inr xs
      | GProtoArray pa \<Rightarrow> Inr pa
      | GString x \<Rightarrow> if x = [] then Inr [] else Inl TypeError
      | GNumber n \<Rightarrow> if n = 0 then Inr [] else Inl TypeError
      | GObjectOrFunction \<Rightarrow> Inl TypeError)"

text \<open>
  The values met in \<^verbatim>\<open>inDegree\<close>: a counter, \<^verbatim>\<open>NaN\<close>, a string that is no numeral
  (an object or function with 1 appended), and what a lookup beside the own counters
  gives: \<^verbatim>\<open>undefined\<close>, or an inherited function or object.
\<close>

datatype D_value = Num int | NaN | Text | DUndefined | DObjectOrFunction

definition inDegree_get :: "(string \<times> D_value) list \<Rightarrow> string \<Rightarrow> D_value" where
  "inDegree_get d k =
     (if k = ''__proto__'' then DObjectOrFunction
      else (case map_of d k of
              Some v \<Rightarrow> v
            | None \<Rightarrow> if k \<in> set objectPrototypeKeys then DObjectOrFunction else DUndefined))"

text \<open>
  \<^verbatim>\<open>inDegree[k] = v\<close> for a number or string \<open>v\<close>: an own property; the accessor
  \<^verbatim>\<open>__proto__\<close> ignores a value that is no object.
\<close>

definition inDegree_set :: "(string \<times> D_value) list \<Rightarrow> string \<Rightarrow> D_value \<Rightarrow> (string \<times> D_value) list" where
  "inDegree_set d k v = (if k = ''__proto__'' then d else AList.update k v d)"

text \<open>\<^verbatim>\<open>(v || 0) + 1\<close>.\<close>

fun plusOne :: "D_value \<Rightarrow> D_value" where
  "plusOne (Num n) = Num (n + 1)"
| "plusOne NaN = Num 1"
| "plusOne DUndefined = Num 1"
| "plusOne Text = Text"
| "plusOne DObjectOrFunction = Text"

text \<open>The value stored by \<^verbatim>\<open>v--\<close>.\<close>

fun minusOne :: "D_value \<Rightarrow> D_value" where
  "minusOne (Num n) = Num (n - 1)"
| "minusOne _ = NaN"

section \<open>\<^verbatim>\<open>parseWorkflow\<close>\<close>

subsection \<open>Call extraction\<close>

text \<open>
  The matches whose first group is a declared name, numbered by \<^verbatim>\<open>callIndex++\<close> in the
  order they are kept.
\<close>

definition calledProcessInstances :: "string list \<Rightarrow> string \<Rightarrow> CallInstance list" where
  "calledProcessInstances definedProcessNames workflowContent =
     map (\<lambda>(k, (i, n, a)). \<lparr>call_name = n, call_index = k, call_inputs = a\<rparr>)
       (List.enumerate 0
          (filter (\<lambda>(i, n, a). n \<in> set definedProcessNames) (execCalls 0 workflowContent)))"

subsection \<open>Nodes and edges\<close>

text \<open>
  The arrays \<^verbatim>\<open>nodes\<close> and \<^verbatim>\<open>edges\<close> and the two objects. \<^verbatim>\<open>nodeMap\<close> holds the
  node objects of \<^verbatim>\<open>nodes\<close> under their ids, so \<^verbatim>\<open>nodeMap.has(k)\<close> asks for a node
  with id \<open>k\<close>, \<^verbatim>\<open>nodeMap.get(k)\<close> is that node, and writing its fields writes the
  entry of \<^verbatim>\<open>nodes\<close>.
\<close>

record BuildState =
  st_nodes :: "VisNode list"
  st_edges :: "VisEdge list"
  st_G :: GObject
  st_inDegree :: "(string \<times> D_value) list"

definition emptyBuildState :: BuildState where
  "emptyBuildState =
     \<lparr>st_nodes = [], st_edges = [], st_G = \<lparr>G_own = [], G_proto = None\<rparr>, st_inDegree = []\<rparr>"

definition newNode :: "string \<Rightarrow> VisNode" where
  "newNode n =
     \<lparr>node_id = n, node_name = n, node_x = 0, node_y = 0,
      node_width = NODE_WIDTH, node_height = NODE_HEIGHT\<rparr>"

definition nodeMap_has :: "VisNode list \<Rightarrow> string \<Rightarrow> bool" where
  "nodeMap_has ns k \<longleftrightarrow> k \<in> set (map node_id ns)"

definition nodeMap_get :: "VisNode list \<Rightarrow> string \<Rightarrow> VisNode option" where
  "nodeMap_get ns k = find (\<lambda>n. node_id n = k) ns"

text \<open>The body of the first \<^verbatim>\<open>calledProcessInstances.forEach\<close>.\<close>

definition addNode :: "BuildState \<Rightarrow> CallInstance \<Rightarrow> BuildState" where
  "addNode st inst =
     (if nodeMap_has (st_nodes st) (call_name inst) then st
      else st\<lparr>st_nodes := st_nodes st @ [newNode (call_name inst)],
               st_G := G_init (st_G st) (call_name inst),
               st_inDegree := inDegree_set (st_inDegree st) (call_name inst) (Num 0)\<rparr>)"

definition newEdge :: "string \<Rightarrow> string \<Rightarrow> VisEdge" where
  "newEdge s t =
     \<lparr>edge_id = s @ ''->'' @ t, edge_source = s, edge_target = t,
      edge_startX = 0, edge_startY = 0, edge_endX = 0, edge_endY = 0,
      edge_controlX = 0, edge_controlY = 0\<rparr>"

text \<open>The body of the inner \<^verbatim>\<open>while\<close> for one reference \<open>sourceProcessName\<close>.\<close>

definition addEdge :: "string list \<Rightarrow> string \<Rightarrow> BuildState \<Rightarrow> string \<Rightarrow> js_error + BuildState" where
  "addEdge definedProcessNames targetProcessName st sourceProcessName =
     (if sourceProcessName \<in> set definedProcessNames \<and> sourceProcessName \<noteq> targetProcessName
      then (let edgeId = sourceProcessName @ ''->'' @ targetProcessName
            in if \<exists>e \<in> set (st_edges st). edge_id e = edgeId then Inr st
               else (case G_link (st_G st) sourceProcessName targetProcessName of
                       Inl err \<Rightarrow> Inl err
                     | Inr G' \<Rightarrow>
                         Inr (st\<lparr>st_edges := st_edges st @ [newEdge sourceProcessName targetProcessName],
                                  st_G := G',
                                  st_inDegree :=
                                    inDegree_set (st_inDegree st) targetProcessName
                                      (plusOne (inDegree_get (st_inDegree st) targetProcessName))\<rparr>)))
      else Inr st)"

fun addEdges :: "string list \<Rightarrow> string \<Rightarrow> BuildState \<Rightarrow> string list \<Rightarrow> js_error + BuildState" where
  "addEdges definedProcessNames t st [] = Inr st"
| "addEdges definedProcessNames t st (s # ss) =
     (case addEdge definedProcessNames t st s of
        Inl err \<Rightarrow> Inl err
      | Inr st' \<Rightarrow> addEdges definedProcessNames t st' ss)"

text \<open>
  The second \<^verbatim>\<open>calledProcessInstances.forEach\<close>. The second group of a match is always
  a string, so the test \<^verbatim>\<open>typeof inputArgs !== 'string'\<close> never leaves the body.
\<close>

fun inferEdges :: "string list \<Rightarrow> BuildState \<Rightarrow> CallInstance list \<Rightarrow> js_error + BuildState" where
  "inferEdges definedProcessNames st [] = Inr st"
| "inferEdges definedProcessNames st (targetInst # insts) =
     (case addEdges definedProcessNames (call_name targetInst) st (execRefs (call_inputs targetInst)) of
        Inl err \<Rightarrow> Inl err
      | Inr st' \<Rightarrow> inferEdges definedProcessNames st' insts)"

subsection \<open>Layering\<close>

text \<open>The first queue: the ids of the nodes with \<^verbatim>\<open>inDegree[node.id] === 0\<close>, in node order.\<close>

definition initialQueue :: "VisNode list \<Rightarrow> (string \<times> D_value) list \<Rightarrow> string list" where
  "initialQueue ns d = map node_id (filter (\<lambda>n. inDegree_get d (node_id n) = Num 0) ns)"

text \<open>The body of \<^verbatim>\<open>forEach(v => ...)\<close>: decrement, and enqueue at zero.\<close>

definition relax :: "string \<Rightarrow> (string \<times> D_value) list \<times> string list \<Rightarrow> (string \<times> D_value) list \<times> string list" where
  "relax v = (\<lambda>(d, q).
     (let d' = inDegree_set d v (minusOne (inDegree_get d v))
      in (d', if inDegree_get d' v = Num 0 then q @ [v] else q)))"

text \<open>
  One turn of the \<^verbatim>\<open>for\<close> loop on the dequeued \<open>u\<close>. The state is \<^verbatim>\<open>inDegree\<close>, the
  ids enqueued during this layer, and the layer so far.
\<close>

definition visit :: "GObject \<Rightarrow> (string \<times> D_value) list \<times> string list \<times> string list \<Rightarrow> string
    \<Rightarrow> js_error + ((string \<times> D_value) list \<times> string list \<times> string list)" where
  "visit G = (\<lambda>(d, q, layer) u.
     if u = [] then Inr (d, q, layer)
     else (case G_successors G u of
             Inl err \<Rightarrow> Inl err
           | Inr vs \<Rightarrow> (let (d', q') = fold relax vs (d, q) in Inr (d', q', layer @ [u]))))"

text \<open>
  The \<^verbatim>\<open>for\<close> loop takes \<^verbatim>\<open>layerSize\<close> ids from the front of the queue while the
  \<^verbatim>\<open>forEach\<close> appends at its end: it visits the queue as it was when the layer began,
  and what was appended is the queue of the next layer.
\<close>

fun visitAll :: "GObject \<Rightarrow> (string \<times> D_value) list \<times> string list \<times> string list \<Rightarrow> string list
    \<Rightarrow> js_error + ((string \<times> D_value) list \<times> string list \<times> string list)" where
  "visitAll G st [] = Inr st"
| "visitAll G st (u # us) =
     (case visit G st u of Inl err \<Rightarrow> Inl err | Inr st' \<Rightarrow> visitAll G st' us)"

text \<open>
  The loop \<^verbatim>\<open>while (queue.length > 0)\<close> ends because every id enqueued has had its counter
  brought from 1 to 0: the sum of the positive counters bounds the number of ids still to
  be enqueued.
\<close>

fun weight :: "D_value \<Rightarrow> nat" where
  "weight (Num n) = nat n"
| "weight _ = 0"

definition pending :: "(string \<times> D_value) list \<Rightarrow> nat" where
  "pending d = sum_list (map (\<lambda>p. weight (snd p)) d)"

lemma pending_update_old:
  "map_of d k = Some old \<Longrightarrow> pending (AList.update k v d) + weight old = pending d + weight v"
  by (induction d) (auto simp: pending_def)

lemma pending_update_new:
  "map_of d k = None \<Longrightarrow> pending (AList.update k v d) = pending d + weight v"
  by (induction d) (auto simp: pending_def)

lemma map_of_update_same: "map_of (AList.update k v d) k = Some v"
  by (simp add: AList.update_conv')

lemma relax_measure:
  "relax v (d, q) = (d', q') \<Longrightarrow> pending d' + length q' \<le> pending d + length q"
proof (cases "v = ''__proto__''")
  case True
  assume "relax v (d, q) = (d', q')"
  with True show ?thesis
    by (auto simp: relax_def inDegree_set_def inDegree_get_def Let_def)
next
  case False
  assume r: "relax v (d, q) = (d', q')"
  show ?thesis
  proof (cases "map_of d v")
    case None
    with r False show ?thesis
      by (auto simp: relax_def inDegree_set_def inDegree_get_def Let_def map_of_update_same
          pending_update_new split: if_splits)
  next
    case (Some old)
    with r False show ?thesis
      using pending_update_old [OF Some, of "minusOne old"]
      by (cases old) (auto simp: relax_def inDegree_set_def inDegree_get_def Let_def map_of_update_same
          split: if_splits)
  qed
qed

lemma fold_relax_measure:
  "fold relax vs (d, q) = (d', q') \<Longrightarrow> pending d' + length q' \<le> pending d + length q"
proof (induction vs arbitrary: d q)
  case Nil
  then show ?case by simp
next
  case (Cons v vs)
  obtain d1 q1 where s: "relax v (d, q) = (d1, q1)" by (cases "relax v (d, q)")
  from Cons.prems s have "fold relax vs (d1, q1) = (d', q')" by simp
  from Cons.IH [OF this] relax_measure [OF s] show ?case by simp
qed

lemma visit_measure:
  "visit G (d, q, l) u = Inr (d', q', l') \<Longrightarrow> pending d' + length q' \<le> pending d + length q"
  by (auto simp: visit_def Let_def split: if_splits sum.splits prod.splits dest: fold_relax_measure)

lemma visitAll_measure:
  "visitAll G (d, q, l) us = Inr (d', q', l') \<Longrightarrow> pending d' + length q' \<le> pending d + length q"
proof (induction us arbitrary: d q l)
  case Nil
  then show ?case by simp
next
  case (Cons u us)
  from Cons.prems obtain d1 q1 l1 where v: "visit G (d, q, l) u = Inr (d1, q1, l1)"
    and r: "visitAll G (d1, q1, l1) us = Inr (d', q', l')"
    by (auto split: sum.splits)
  from Cons.IH [OF r] visit_measure [OF v] show ?case by simp
qed

text \<open>
  \<^verbatim>\<open>while (queue.length > 0)\<close>: one layer for each turn, holding the ids visited in it.
  \<^verbatim>\<open>nodeLayerMap\<close> is written and never read.
\<close>

function layering :: "GObject \<Rightarrow> (string \<times> D_value) list \<Rightarrow> string list \<Rightarrow> js_error + string list list" where
  "layering G d queue =
     (if queue = [] then Inr []
      else (case visitAll G (d, [], []) queue of
              Inl err \<Rightarrow> Inl err
            | Inr (d', queue', layer) \<Rightarrow>
                (case layering G d' queue' of
                   Inl err \<Rightarrow> Inl err
                 | Inr layers \<Rightarrow> Inr (layer # layers))))"
  by pat_completeness auto
termination
proof (relation "measure (\<lambda>(G, d, queue). pending d + (if queue = [] then 0 else 1))")
  show "wf (measure (\<lambda>(G, d, queue). pending d + (if queue = [] then 0 else 1)))" by simp
next
  fix G :: GObject and d queue x2 and x y xa ya
  assume "queue \<noteq> []" and v: "visitAll G (d, [], []) queue = Inr x2" and "(x, y) = x2" "(xa, ya) = y"
  then have "visitAll G (d, [], []) queue = Inr (x, xa, ya)" by simp
  from visitAll_measure [OF this] \<open>queue \<noteq> []\<close>
  show "((G, x, xa), G, d, queue) \<in> measure (\<lambda>(G, d, queue). pending d + (if queue = [] then 0 else 1))"
    by (cases xa) auto
qed

declare layering.simps [simp del]

subsection \<open>Coordinates\<close>

text \<open>
  The body of \<^verbatim>\<open>layer.forEach\<close>: the state is the nodes and \<^verbatim>\<open>currentX\<close>; \<open>y\<close> is
  the ordinate of the layer.
\<close>

definition placeNode :: "real \<Rightarrow> VisNode list \<times> real \<Rightarrow> string \<Rightarrow> VisNode list \<times> real" where
  "placeNode y = (\<lambda>(ns, currentX) nodeId.
     if nodeMap_has ns nodeId
     then (map (\<lambda>n. if node_id n = nodeId then n\<lparr>node_x := currentX, node_y := y\<rparr> else n) ns,
           currentX + NODE_WIDTH + X_SPACING)
     else (ns, currentX))"

definition layerStartX :: "CanvasSize \<Rightarrow> string list \<Rightarrow> real" where
  "layerStartX canvas layer =
     (let layerWidth = real (length layer) * NODE_WIDTH + (real (length layer) - 1) * X_SPACING;
          currentX = (canvas_width canvas - layerWidth) / 2
      in if currentX < X_SPACING then X_SPACING else currentX)"

definition placeLayer :: "CanvasSize \<Rightarrow> VisNode list \<Rightarrow> nat \<Rightarrow> string list \<Rightarrow> VisNode list" where
  "placeLayer canvas ns layerIndex layer =
     fst (foldl (placeNode (real layerIndex * (NODE_HEIGHT + Y_SPACING) + Y_SPACING))
            (ns, layerStartX canvas layer) layer)"

text \<open>\<^verbatim>\<open>layers.forEach((layer, layerIndex) => ...)\<close>, from index \<open>i\<close> on.\<close>

fun placeLayers :: "CanvasSize \<Rightarrow> nat \<Rightarrow> string list list \<Rightarrow> VisNode list \<Rightarrow> VisNode list" where
  "placeLayers canvas i [] ns = ns"
| "placeLayers canvas i (layer # layers) ns =
     placeLayers canvas (Suc i) layers (placeLayer canvas ns i layer)"

subsection \<open>Curves\<close>

text \<open>
  The body of \<^verbatim>\<open>edges.forEach\<close>. The first conditional on the control point is kept
  although the second one overwrites both coordinates in each of its branches.
\<close>

definition routeEdge :: "VisNode list \<Rightarrow> VisEdge \<Rightarrow> VisEdge" where
  "routeEdge ns edge =
     (case (nodeMap_get ns (edge_source edge), nodeMap_get ns (edge_target edge)) of
        (Some sourceNode, Some targetNode) \<Rightarrow>
          (let startX = node_x sourceNode + node_width sourceNode / 2;
               startY = node_y sourceNode + node_height sourceNode;
               endX = node_x targetNode + node_width targetNode / 2;
               endY = node_y targetNode;
               midX = (startX + endX) / 2;
               midY = (startY + endY) / 2;
               dx = endX - startX;
               dy = endY - startY;
               len = sqrt (dx * dx + dy * dy);
               curvature = min (len * 0.25) 50;
               (controlX1, controlY1) =
                 (if \<bar>dx\<bar> > \<bar>dy\<bar> then (midX, midY - curvature * sgn dx)
                  else (midX + curvature, midY));
               (controlX, controlY) =
                 (if startY < endY
                  then (if startX > endX then startX - (startX - endX) * 0.5 - 30
                        else if startX < endX then startX + (endX - startX) * 0.5 + 30
                        else (startX + endX) / 2 + (if startX = endX then 30 else 0),
                        startY + (endY - startY) * 0.6)
                  else (midX + curvature, midY))
           in edge\<lparr>edge_startX := startX, edge_startY := startY,
                    edge_endX := endX, edge_endY := endY,
                    edge_controlX := controlX, edge_controlY := controlY\<rparr>)
      | _ \<Rightarrow> edge)"

subsection \<open>The function\<close>

text \<open>The graph before the layout: both \<^verbatim>\<open>forEach\<close> loops over the calls.\<close>

definition buildGraph :: "string list \<Rightarrow> string \<Rightarrow> js_error + BuildState" where
  "buildGraph definedProcessNames workflowContent =
     (let calls = calledProcessInstances definedProcessNames workflowContent
      in inferEdges definedProcessNames (foldl addNode emptyBuildState calls) calls)"

text \<open>The array \<^verbatim>\<open>layers\<close> when the \<^verbatim>\<open>while\<close> loop has ended.\<close>

definition workflowLayers :: "string \<Rightarrow> NextflowProcess list \<Rightarrow> js_error + string list list" where
  "workflowLayers workflowContent processes =
     (case buildGraph (map proc_name processes) workflowContent of
        Inl err \<Rightarrow> Inl err
      | Inr st \<Rightarrow> layering (st_G st) (st_inDegree st) (initialQueue (st_nodes st) (st_inDegree st)))"

text \<open>
  \<^verbatim>\<open>parseWorkflow\<close>, with the module-level \<^verbatim>\<open>canvasSizeForLayout\<close> as its first
  argument.
\<close>

definition parseWorkflow :: "CanvasSize \<Rightarrow> workflow_input \<Rightarrow> NextflowProcess list \<Rightarrow> js_error + VisData" where
  "parseWorkflow canvasSizeForLayout workflowContent processes =
     (case workflowContent of
        NonTextual \<Rightarrow> Inr \<lparr>nodes = [], edges = []\<rparr>
      | Textual text \<Rightarrow>
          (case buildGraph (map proc_name processes) text of
             Inl err \<Rightarrow> Inl err
           | Inr st \<Rightarrow>
               (case layering (st_G st) (st_inDegree st) (initialQueue (st_nodes st) (st_inDegree st)) of
                  Inl err \<Rightarrow> Inl err
                | Inr layers \<Rightarrow>
                    (let placed = placeLayers canvasSizeForLayout 0 layers (st_nodes st)
                     in Inr \<lparr>nodes = placed, edges = map (routeEdge placed) (st_edges st)\<rparr>))))"

section \<open>The effect hook of \<^verbatim>\<open>WorkflowVisualizer\<close>\<close>

text \<open>
  What one run of the effect leaves: the state \<^verbatim>\<open>visData\<close>, the error shown, and the
  module-level canvas size the next run of \<^verbatim>\<open>parseWorkflow\<close> reads.
\<close>

record RenderState =
  visData :: VisData
  errorVisualizing :: "js_error option"
  canvasSizeForLayout :: CanvasSize

definition maxRight :: "VisNode list \<Rightarrow> real" where
  "maxRight ns = foldl (\<lambda>maxX n. if node_x n + node_width n > maxX then node_x n + node_width n else maxX) 0 ns"

definition maxBottom :: "VisNode list \<Rightarrow> real" where
  "maxBottom ns = foldl (\<lambda>maxY n. if node_y n + node_height n > maxY then node_y n + node_height n else maxY) 0 ns"

definition runEffect :: "CanvasSize \<Rightarrow> workflow_input \<Rightarrow> NextflowProcess list \<Rightarrow> RenderState" where
  "runEffect canvas workflowContent processes =
     (case parseWorkflow canvas workflowContent processes of
        Inr vis \<Rightarrow>
          \<lparr>visData = vis, errorVisualizing = None,
           canvasSizeForLayout =
             \<lparr>canvas_width = max 800 (maxRight (nodes vis) + X_SPACING * 2),
              canvas_height = max 600 (maxBottom (nodes vis) + Y_SPACING * 2)\<rparr>\<rparr>
      | Inl err \<Rightarrow>
          \<lparr>visData = \<lparr>nodes = [], edges = []\<rparr>, errorVisualizing = Some err,
           canvasSizeForLayout = canvas\<rparr>)"

text \<open>A declared process of the given name; the other fields are not read by the visualizer.\<close>

definition process :: "string \<Rightarrow> NextflowProcess" where
  "process n =
     \<lparr>proc_id = [], proc_name = n, proc_description = [], proc_inputDeclarations = [],
      proc_outputDeclarations = [], proc_directiveDeclarations = [], proc_script = []\<rparr>"

section \<open>Notions used in the statements\<close>

text \<open>
  An occurrence of the call pattern in the text, from position \<open>i\<close> up to position \<open>e\<close>:
  the name (word characters), white space, an open paren, the arguments \<open>a\<close>, which are
  the characters up to the first close-paren, and that close-paren.
\<close>

definition callSpan :: "string \<Rightarrow> nat \<Rightarrow> string \<Rightarrow> string \<Rightarrow> nat \<Rightarrow> bool" where
  "callSpan text i n a e \<longleftrightarrow>
     (\<exists>ws r. drop i text = n @ ws @ ''('' @ a @ '')'' @ r \<and>
        e = i + length n + length ws + length a + 2 \<and>
        n \<noteq> [] \<and> list_all isWord n \<and> list_all isSpace ws \<and> CHR '')'' \<notin> set a)"

definition callStarts :: "string \<Rightarrow> nat \<Rightarrow> bool" where
  "callStarts text k \<longleftrightarrow> (\<exists>n a e. callSpan text k n a e)"

text \<open>
  The left-to-right scan of the text from position \<open>lo\<close>: every listed occurrence is the
  first one that starts at or after the end of the one before it, and no occurrence
  starts after the end of the last one.
\<close>

fun scanSpec :: "string \<Rightarrow> nat \<Rightarrow> (nat \<times> string \<times> string \<times> nat) list \<Rightarrow> bool" where
  "scanSpec text lo [] \<longleftrightarrow> (\<forall>k\<ge>lo. \<not> callStarts text k)"
| "scanSpec text lo ((p, n, a, e) # ms) \<longleftrightarrow>
     lo \<le> p \<and> (\<forall>k. lo \<le> k \<and> k < p \<longrightarrow> \<not> callStarts text k) \<and>
     callSpan text p n a e \<and> scanSpec text e ms"

text \<open>A node as the first loop creates it.\<close>

definition freshNode :: "VisNode \<Rightarrow> bool" where
  "freshNode n \<longleftrightarrow> n = newNode (node_id n)"

text \<open>Two nodes that differ at most in their coordinates.\<close>

definition sameNode :: "VisNode \<Rightarrow> VisNode \<Rightarrow> bool" where
  "sameNode n m \<longleftrightarrow> node_id m = node_id n \<and> node_name m = node_name n \<and>
     node_width m = node_width n \<and> node_height m = node_height n"

text \<open>
  The edges found so far: no id twice, every id built from its end points, sources in
  \<open>S\<close>, targets in \<open>T\<close>, no loop.
\<close>

definition edgesOk :: "string set \<Rightarrow> string set \<Rightarrow> VisEdge list \<Rightarrow> bool" where
  "edgesOk S T es \<longleftrightarrow> distinct (map edge_id es) \<and>
     (\<forall>e \<in> set es. edge_id e = edge_source e @ ''->'' @ edge_target e \<and> edge_source e \<in> S \<and>
        edge_target e \<in> T \<and> edge_source e \<noteq> edge_target e)"

text \<open>The node with id \<open>k\<close> lies at \<open>(x, y)\<close>.\<close>

definition placedAt :: "VisNode list \<Rightarrow> string \<Rightarrow> real \<Rightarrow> real \<Rightarrow> bool" where
  "placedAt ns k x y \<longleftrightarrow> (\<exists>n. nodeMap_get ns k = Some n \<and> node_x n = x \<and> node_y n = y)"

text \<open>
  A counter that is a number, and a counter that has reached zero or less: the id has
  been enqueued and is never enqueued again.
\<close>

definition counted :: "(string \<times> D_value) list \<Rightarrow> string \<Rightarrow> bool" where
  "counted d u \<longleftrightarrow> (\<exists>n. inDegree_get d u = Num n)"

definition spent :: "(string \<times> D_value) list \<Rightarrow> string \<Rightarrow> bool" where
  "spent d u \<longleftrightarrow> (\<exists>n\<le>0. inDegree_get d u = Num n)"

text \<open>Nodes of the fixed width whose right edge stays within 640.\<close>

definition narrow :: "VisNode list \<Rightarrow> bool" where
  "narrow ns \<longleftrightarrow> (\<forall>n \<in> set ns. node_width n = NODE_WIDTH \<and> node_x n \<le> 460)"

section \<open>The call pattern\<close>

text \<open>
  \<open>matchCall\<close> answers exactly the texts that the pattern describes, so no other way of
  splitting the text (a shorter name, less white space) gives a match that it misses.
\<close>

lemma dropWhile_head: "dropWhile P xs = y # ys \<Longrightarrow> \<not> P y"
  using hd_dropWhile [of P xs] by auto

lemma takeWhile_all: "list_all P (takeWhile P xs)"
  by (induction xs) auto

lemma matchCall_shape:
  assumes "matchCall s = Some (n, a, r)"
  shows "\<exists>ws. s = n @ ws @ ''('' @ a @ '')'' @ r \<and> n \<noteq> [] \<and> list_all isWord n \<and>
           list_all isSpace ws \<and> CHR '')'' \<notin> set a"
proof -
  from assms obtain c r2 d where
    n: "n = takeWhile isWord s" "n \<noteq> []" and
    r1: "dropWhile isSpace (dropWhile isWord s) = c # r2" and c: "c = CHR ''(''" and
    r3: "dropWhile (\<lambda>c. c \<noteq> CHR '')'') r2 = d # r" and
    a: "a = takeWhile (\<lambda>c. c \<noteq> CHR '')'') r2"
    by (auto simp: matchCall_def Let_def split: list.splits if_splits)
  let ?ws = "takeWhile isSpace (dropWhile isWord s)"
  have d: "d = CHR '')''" using dropWhile_head [OF r3] by simp
  have "s = n @ dropWhile isWord s" using n by simp
  also have "dropWhile isWord s = ?ws @ c # r2" using r1 [symmetric] by simp
  also have "r2 = a @ d # r" using r3 [symmetric] a by simp
  finally have "s = n @ ?ws @ ''('' @ a @ '')'' @ r" using c d by simp
  moreover have "CHR '')'' \<notin> set a" using a by (auto dest: set_takeWhileD)
  ultimately show ?thesis using n by (auto simp: takeWhile_all intro!: exI [of _ ?ws])
qed

lemma takeWhile_append_stop:
  "list_all P xs \<Longrightarrow> (ys = [] \<or> \<not> P (hd ys)) \<Longrightarrow> takeWhile P (xs @ ys) = xs"
  by (induction xs) (cases ys; auto)+

lemma dropWhile_append_stop:
  "list_all P xs \<Longrightarrow> (ys = [] \<or> \<not> P (hd ys)) \<Longrightarrow> dropWhile P (xs @ ys) = ys"
  by (induction xs) (cases ys; auto)+

lemma space_not_word: "isSpace c \<Longrightarrow> \<not> isWord c"
  by (auto simp: isSpace_def isWord_def)

lemma matchCall_complete:
  assumes "n \<noteq> []" "list_all isWord n" "list_all isSpace ws" "CHR '')'' \<notin> set a"
  shows "matchCall (n @ ws @ ''('' @ a @ '')'' @ r) = Some (n, a, r)"
proof -
  let ?rest = "ws @ ''('' @ a @ '')'' @ r"
  have paren: "\<not> isWord CHR ''(''" by (simp add: isWord_def)
  have stop: "\<not> isWord (hd ?rest)"
    using assms(3) paren by (cases ws) (auto simp: space_not_word)
  have t: "takeWhile isWord (n @ ?rest) = n" and dr: "dropWhile isWord (n @ ?rest) = ?rest"
    using assms(2) stop by (simp_all add: takeWhile_append_stop dropWhile_append_stop)
  have ds: "dropWhile isSpace ?rest = ''('' @ a @ '')'' @ r"
    using assms(3) by (simp add: dropWhile_append_stop isSpace_def)
  have alla: "list_all (\<lambda>c. c \<noteq> CHR '')'') a" using assms(4) by (auto simp: list_all_iff)
  have ta: "takeWhile (\<lambda>c. c \<noteq> CHR '')'') (a @ '')'' @ r) = a"
    and da: "dropWhile (\<lambda>c. c \<noteq> CHR '')'') (a @ '')'' @ r) = '')'' @ r"
    using alla by (simp_all add: takeWhile_append_stop dropWhile_append_stop)
  show ?thesis
    unfolding matchCall_def Let_def t dr ds using assms(1) ta da by simp
qed

lemma callSpan_match:
  assumes "callSpan text p n a e"
  shows "matchCall (drop p text) = Some (n, a, drop e text)" and "p < e" and "e \<le> length text"
proof -
  from assms obtain ws r where d: "drop p text = n @ ws @ ''('' @ a @ '')'' @ r"
    and e: "e = p + length n + length ws + length a + 2"
    and sh: "n \<noteq> []" "list_all isWord n" "list_all isSpace ws" "CHR '')'' \<notin> set a"
    unfolding callSpan_def by blast
  define pre where "pre = n @ ws @ ''('' @ a @ '')''"
  have d': "drop p text = pre @ r" using d by (simp add: pre_def)
  have len: "length pre = e - p" and pe: "p < e" using e by (simp_all add: pre_def)
  have "length (drop p text) = length pre + length r" by (subst d') simp
  then show "e \<le> length text" using len pe by simp
  have "drop e text = drop (e - p) (drop p text)" using pe by simp
  also have "\<dots> = r" unfolding d' using len by simp
  finally have r: "drop e text = r" .
  show "matchCall (drop p text) = Some (n, a, drop e text)"
    unfolding r d by (rule matchCall_complete [OF sh])
  show "p < e" by (rule pe)
qed

lemma match_callSpan:
  assumes "matchCall (drop p text) = Some (n, a, r)"
  shows "callSpan text p n a (p + (length (drop p text) - length r))"
    and "drop (p + (length (drop p text) - length r)) text = r"
proof -
  from matchCall_shape [OF assms] obtain ws where
    d: "drop p text = n @ ws @ ''('' @ a @ '')'' @ r" and sh: "n \<noteq> []" "list_all isWord n"
      "list_all isSpace ws" "CHR '')'' \<notin> set a" by blast
  have len: "length (drop p text) - length r = length n + length ws + length a + 2"
    by (subst d) simp
  show c: "callSpan text p n a (p + (length (drop p text) - length r))"
    unfolding callSpan_def len using d sh by (intro exI [of _ ws] exI [of _ r]) simp
  from callSpan_match(1) [OF c] assms
  show "drop (p + (length (drop p text) - length r)) text = r" by simp
qed

lemma callStarts_match: "callStarts text k \<longleftrightarrow> matchCall (drop k text) \<noteq> None"
proof
  assume "callStarts text k"
  then show "matchCall (drop k text) \<noteq> None"
    unfolding callStarts_def using callSpan_match(1) by fastforce
next
  assume "matchCall (drop k text) \<noteq> None"
  then obtain n a r where "matchCall (drop k text) = Some (n, a, r)" by auto
  from match_callSpan(1) [OF this] show "callStarts text k" unfolding callStarts_def by blast
qed

lemma callSpan_unique:
  assumes "callSpan text p n a e" "callSpan text p n' a' e'"
  shows "n' = n \<and> a' = a \<and> e' = e"
proof -
  note m = callSpan_match [OF assms(1)] and m' = callSpan_match [OF assms(2)]
  from m(1) m'(1) have eq: "n' = n" "a' = a" "drop e' text = drop e text" by simp_all
  from eq(3) have "length (drop e' text) = length (drop e text)" by simp
  with m(3) m'(3) have "e' = e" by simp
  with eq show ?thesis by simp
qed

lemma scanSpec_skip:
  "\<not> callStarts text lo \<Longrightarrow> scanSpec text (Suc lo) ms \<Longrightarrow> scanSpec text lo ms"
proof (cases ms)
  case Nil
  assume "\<not> callStarts text lo" "scanSpec text (Suc lo) ms"
  with Nil show ?thesis by (auto simp: Suc_le_eq dest: le_neq_implies_less)
next
  case (Cons m ms')
  obtain p n a e where m: "m = (p, n, a, e)" by (cases m)
  assume "\<not> callStarts text lo" "scanSpec text (Suc lo) ms"
  with Cons m show ?thesis by (auto simp: Suc_le_eq dest: le_neq_implies_less)
qed

lemma execCalls_scan:
  "s = drop off text \<Longrightarrow>
   \<exists>ms. scanSpec text off ms \<and> map (\<lambda>(p, n, a, e). (p, n, a)) ms = execCalls off s"
proof (induction off s rule: execCalls.induct)
  case (1 off s)
  show ?case
  proof (cases "s = []")
    case True
    have "\<not> callStarts text k" if "off \<le> k" for k
    proof -
      from True "1.prems" that have "drop k text = []" by simp
      then show ?thesis by (simp add: callStarts_match matchCall_def)
    qed
    with True show ?thesis by (intro exI [of _ "[]"]) (simp add: execCalls.simps)
  next
    case False
    show ?thesis
    proof (cases "matchCall s")
      case None
      have t: "tl s = drop (Suc off) text" using "1.prems" by (simp add: drop_Suc drop_tl)
      from "1.IH"(1) [OF False None t] obtain ms where ms: "scanSpec text (Suc off) ms"
        and e: "map (\<lambda>(p, n, a, e). (p, n, a)) ms = execCalls (Suc off) (tl s)" by blast
      have "\<not> callStarts text off" using None "1.prems" by (simp add: callStarts_match)
      from scanSpec_skip [OF this ms] e False None show ?thesis
        by (intro exI [of _ ms]) (simp add: execCalls.simps [of off s])
    next
      case (Some m)
      obtain n a r where m: "m = (n, a, r)" by (cases m)
      let ?e = "off + (length s - length r)"
      from Some m "1.prems" have mt: "matchCall (drop off text) = Some (n, a, r)" by simp
      from match_callSpan [OF mt] "1.prems" have c: "callSpan text off n a ?e"
        and r: "r = drop ?e text" by simp_all
      from "1.IH"(2) [OF False Some m [symmetric] refl r] obtain ms where ms: "scanSpec text ?e ms"
        and e: "map (\<lambda>(p, n, a, e). (p, n, a)) ms = execCalls ?e r" by blast
      have gap: "\<forall>k. off \<le> k \<and> k < off \<longrightarrow> \<not> callStarts text k" by auto
      show ?thesis
        by (rule exI [of _ "(off, n, a, ?e) # ms"])
          (use c ms e False Some m gap in \<open>simp add: execCalls.simps [of off s]\<close>)
    qed
  qed
qed

lemma scanSpec_unique:
  "scanSpec text lo ms \<Longrightarrow> scanSpec text lo ms' \<Longrightarrow> ms' = ms"
proof (induction ms arbitrary: lo ms')
  case Nil
  show ?case
  proof (cases ms')
    case Nil
    then show ?thesis by simp
  next
    case (Cons m t)
    obtain p n a e where "m = (p, n, a, e)" by (cases m)
    with Cons Nil.prems have "lo \<le> p" "callStarts text p" "\<not> callStarts text p"
      by (auto simp: callStarts_def)
    then show ?thesis by simp
  qed
next
  case (Cons m ms)
  obtain p n a e where m: "m = (p, n, a, e)" by (cases m)
  from Cons.prems(1) m have lo: "lo \<le> p" and gap: "\<forall>k. lo \<le> k \<and> k < p \<longrightarrow> \<not> callStarts text k"
    and c: "callSpan text p n a e" and rest: "scanSpec text e ms" by simp_all
  from c have st: "callStarts text p" by (auto simp: callStarts_def)
  show ?case
  proof (cases ms')
    case Nil
    with Cons.prems(2) lo st show ?thesis by simp
  next
    case (Cons m' t)
    obtain p' n' a' e' where m': "m' = (p', n', a', e')" by (cases m')
    from Cons Cons.prems(2) m' have lo': "lo \<le> p'"
      and gap': "\<forall>k. lo \<le> k \<and> k < p' \<longrightarrow> \<not> callStarts text k"
      and c': "callSpan text p' n' a' e'" and rest': "scanSpec text e' t" by simp_all
    from c' have st': "callStarts text p'" by (auto simp: callStarts_def)
    have "p' = p"
    proof (rule ccontr)
      assume "p' \<noteq> p"
      then consider "p' < p" | "p < p'" by linarith
      then show False
      proof cases
        case 1
        with gap lo' st' show False by blast
      next
        case 2
        with gap' lo st show False by blast
      qed
    qed
    with callSpan_unique [OF c] c' have same: "n' = n" "a' = a" "e' = e" by simp_all
    from Cons.IH [OF rest rest' [unfolded same]] have "t = ms" .
    with same \<open>p' = p\<close> m m' Cons show ?thesis by simp
  qed
qed

text \<open>
  C8. The calls of a workflow text are read off its left-to-right scan, which exists and
  is unique: each occurrence is the first one starting at or after the end of the
  previous occurrence, its argument text is the raw run of characters between the open
  paren and the first close-paren after it (so a parenthesized sub-expression cuts the
  arguments short), and nothing after the last occurrence is a call. The recognized
  calls are the occurrences with a declared name, in that order, with these names and
  argument texts, numbered from 0.
\<close>

theorem call_extraction:
  "\<exists>ms. scanSpec src 0 ms \<and> (\<forall>ms'. scanSpec src 0 ms' \<longrightarrow> ms' = ms) \<and>
     map call_name (calledProcessInstances definedProcessNames src) =
       map (\<lambda>(p, n, a, e). n) (filter (\<lambda>(p, n, a, e). n \<in> set definedProcessNames) ms) \<and>
     map call_inputs (calledProcessInstances definedProcessNames src) =
       map (\<lambda>(p, n, a, e). a) (filter (\<lambda>(p, n, a, e). n \<in> set definedProcessNames) ms) \<and>
     map call_index (calledProcessInstances definedProcessNames src) =
       [0..<length (calledProcessInstances definedProcessNames src)]"
proof -
  from execCalls_scan [of src 0 src] obtain ms where s: "scanSpec src 0 ms"
    and e: "map (\<lambda>(p, n, a, e). (p, n, a)) ms = execCalls 0 src" by auto
  define keep where "keep = (\<lambda>(i :: nat, n, a :: string). n \<in> set definedProcessNames)"
  define fs where "fs = filter (\<lambda>(p :: nat, n, a :: string, e :: nat). n \<in> set definedProcessNames) ms"
  have f: "filter keep (execCalls 0 src) = map (\<lambda>(p, n, a, e). (p, n, a)) fs"
    unfolding e [symmetric] fs_def keep_def filter_map
    by (rule arg_cong [where f = "map _"], rule filter_cong) auto
  have cs: "calledProcessInstances definedProcessNames src =
      map (\<lambda>(k, (i, n, a)). \<lparr>call_name = n, call_index = k, call_inputs = a\<rparr>)
        (List.enumerate 0 (map (\<lambda>(p, n, a, e). (p, n, a)) fs))"
    unfolding calledProcessInstances_def f [symmetric] keep_def ..
  have names: "map call_name (calledProcessInstances definedProcessNames src) = map (\<lambda>(p, n, a, e). n) fs"
    unfolding cs by (rule nth_equalityI) (auto simp: nth_enumerate_eq split: prod.splits)
  have inputs: "map call_inputs (calledProcessInstances definedProcessNames src) = map (\<lambda>(p, n, a, e). a) fs"
    unfolding cs by (rule nth_equalityI) (auto simp: nth_enumerate_eq split: prod.splits)
  have idx: "map call_index (calledProcessInstances definedProcessNames src) =
      [0..<length (calledProcessInstances definedProcessNames src)]"
    unfolding cs by (rule nth_equalityI) (auto simp: nth_enumerate_eq split: prod.splits)
  have u: "\<forall>ms'. scanSpec src 0 ms' \<longrightarrow> ms' = ms" using scanSpec_unique [OF s] by blast
  show ?thesis
    by (rule exI [of _ ms]) (intro conjI s u names [unfolded fs_def] inputs [unfolded fs_def] idx)
qed

lemma no_call_at: "matchCall (drop k text) = None \<Longrightarrow> \<not> callStarts text k"
  by (simp add: callStarts_match)

lemma scan_eval:
  "scanSpec ''X(1) A(f(x), y) B (A.out)'' 0
     [(0, ''X'', ''1'', 4), (5, ''A'', ''f(x'', 11), (16, ''B'', ''A.out'', 25)]"
proof -
  let ?text = "''X(1) A(f(x), y) B (A.out)''"
  have c0: "callSpan ?text 0 ''X'' ''1'' 4"
    using match_callSpan(1) [of 0 ?text "''X''" "''1''" "'' A(f(x), y) B (A.out)''"]
    by (simp add: matchCall_def isWord_def isSpace_def eval_nat_numeral)
  have c5: "callSpan ?text 5 ''A'' ''f(x'' 11"
    using match_callSpan(1) [of 5 ?text "''A''" "''f(x''" "'', y) B (A.out)''"]
    by (simp add: matchCall_def isWord_def isSpace_def eval_nat_numeral)
  have c16: "callSpan ?text 16 ''B'' ''A.out'' 25"
    using match_callSpan(1) [of 16 ?text "''B''" "''A.out''" "''''"]
    by (simp add: matchCall_def isWord_def isSpace_def eval_nat_numeral)
  have n4: "\<not> callStarts ?text 4" by (rule no_call_at) code_simp
  have n11: "\<not> callStarts ?text 11" by (rule no_call_at) code_simp
  have n12: "\<not> callStarts ?text 12" by (rule no_call_at) code_simp
  have n13: "\<not> callStarts ?text 13" by (rule no_call_at) code_simp
  have n14: "\<not> callStarts ?text 14" by (rule no_call_at) code_simp
  have n15: "\<not> callStarts ?text 15" by (rule no_call_at) code_simp
  have g0: "\<forall>k. (0::nat) \<le> k \<and> k < 0 \<longrightarrow> \<not> callStarts ?text k" by simp
  have g4: "\<forall>k. 4 \<le> k \<and> k < 5 \<longrightarrow> \<not> callStarts ?text k"
  proof (intro allI impI)
    fix k :: nat assume "4 \<le> k \<and> k < 5"
    then have "k = 4" by arith
    with n4 show "\<not> callStarts ?text k" by simp
  qed
  have g11: "\<forall>k. 11 \<le> k \<and> k < 16 \<longrightarrow> \<not> callStarts ?text k"
  proof (intro allI impI)
    fix k :: nat assume "11 \<le> k \<and> k < 16"
    then have "k = 11 \<or> k = 12 \<or> k = 13 \<or> k = 14 \<or> k = 15" by arith
    with n11 n12 n13 n14 n15 show "\<not> callStarts ?text k" by blast
  qed
  have g25: "\<forall>k\<ge>25. \<not> callStarts ?text k"
  proof (intro allI impI)
    fix k :: nat assume "25 \<le> k"
    then have "drop k ?text = []" by simp
    then show "\<not> callStarts ?text k" by (simp add: callStarts_match matchCall_def)
  qed
  show ?thesis
    unfolding scanSpec.simps
    by (intro conjI g0 g4 g11 g25 c0 c5 c16) simp_all
qed

theorem call_extraction_witness:
  "scanSpec ''X(1) A(f(x), y) B (A.out)'' 0
     [(0, ''X'', ''1'', 4), (5, ''A'', ''f(x'', 11), (16, ''B'', ''A.out'', 25)] \<and>
   map call_name (calledProcessInstances [''A'', ''B''] ''X(1) A(f(x), y) B (A.out)'') = [''A'', ''B''] \<and>
   map call_inputs (calledProcessInstances [''A'', ''B''] ''X(1) A(f(x), y) B (A.out)'') = [''f(x'', ''A.out''] \<and>
   map call_index (calledProcessInstances [''A'', ''B''] ''X(1) A(f(x), y) B (A.out)'') = [0, 1]"
proof -
  let ?text = "''X(1) A(f(x), y) B (A.out)''"
  let ?scan = "[(0 :: nat, ''X'', ''1'', 4 :: nat), (5, ''A'', ''f(x'', 11), (16, ''B'', ''A.out'', 25)]"
  from call_extraction [of ?text "[''A'', ''B'']"] obtain ms where
    u: "\<forall>ms'. scanSpec ?text 0 ms' \<longrightarrow> ms' = ms"
    and n: "map call_name (calledProcessInstances [''A'', ''B''] ?text) =
      map (\<lambda>(p, n, a, e). n) (filter (\<lambda>(p, n, a, e). n \<in> set [''A'', ''B'']) ms)"
    and a: "map call_inputs (calledProcessInstances [''A'', ''B''] ?text) =
      map (\<lambda>(p, n, a, e). a) (filter (\<lambda>(p, n, a, e). n \<in> set [''A'', ''B'']) ms)"
    and i: "map call_index (calledProcessInstances [''A'', ''B''] ?text) =
      [0..<length (calledProcessInstances [''A'', ''B''] ?text)]"
    by blast
  from u scan_eval have ms: "ms = ?scan" by blast
  have l: "length (calledProcessInstances [''A'', ''B''] ?text) = 2"
    using arg_cong [OF n, of length] unfolding ms by simp
  have "[0..<2] = [0, Suc 0]" by (simp add: upt_rec)
  with n a i l scan_eval show ?thesis unfolding ms by simp
qed


section \<open>The graph that is built\<close>

subsection \<open>Nodes\<close>

lemma addNode_edges [simp]: "st_edges (addNode st c) = st_edges st"
  by (simp add: addNode_def)

lemma foldl_addNode_edges [simp]: "st_edges (foldl addNode st cs) = st_edges st"
  by (induction cs arbitrary: st) simp_all

lemma addNode_ids:
  "set (map node_id (st_nodes (addNode st c))) = insert (call_name c) (set (map node_id (st_nodes st)))"
  by (auto simp: addNode_def nodeMap_has_def newNode_def)

lemma foldl_addNode_ids:
  "set (map node_id (st_nodes (foldl addNode st cs))) =
     set (map node_id (st_nodes st)) \<union> set (map call_name cs)"
  by (induction cs arbitrary: st) (auto simp: addNode_ids simp del: set_map)

lemma addNode_distinct:
  "distinct (map node_id (st_nodes st)) \<Longrightarrow> distinct (map node_id (st_nodes (addNode st c)))"
  by (auto simp: addNode_def nodeMap_has_def newNode_def)

lemma foldl_addNode_distinct:
  "distinct (map node_id (st_nodes st)) \<Longrightarrow> distinct (map node_id (st_nodes (foldl addNode st cs)))"
  by (induction cs arbitrary: st) (simp_all add: addNode_distinct)

lemma addNode_fresh:
  "list_all freshNode (st_nodes st) \<Longrightarrow> list_all freshNode (st_nodes (addNode st c))"
  by (simp add: addNode_def freshNode_def newNode_def)

lemma foldl_addNode_fresh:
  "list_all freshNode (st_nodes st) \<Longrightarrow> list_all freshNode (st_nodes (foldl addNode st cs))"
  by (induction cs arbitrary: st) (simp_all add: addNode_fresh)

lemma addEdge_cases:
  assumes "addEdge names t st s = Inr st'"
  obtains (same) "st' = st"
  | (new) G' where "s \<in> set names" "s \<noteq> t" "\<forall>e \<in> set (st_edges st). edge_id e \<noteq> s @ ''->'' @ t"
      "G_link (st_G st) s t = Inr G'"
      "st' = st\<lparr>st_edges := st_edges st @ [newEdge s t], st_G := G',
                 st_inDegree := inDegree_set (st_inDegree st) t (plusOne (inDegree_get (st_inDegree st) t))\<rparr>"
proof (cases "s \<in> set names \<and> s \<noteq> t \<and> (\<forall>e \<in> set (st_edges st). edge_id e \<noteq> s @ ''->'' @ t)")
  case False
  then have "addEdge names t st s = Inr st" unfolding addEdge_def Let_def by auto
  with assms same show ?thesis by simp
next
  case True
  then have e: "addEdge names t st s =
      (case G_link (st_G st) s t of Inl err \<Rightarrow> Inl err
       | Inr G' \<Rightarrow> Inr (st\<lparr>st_edges := st_edges st @ [newEdge s t], st_G := G',
            st_inDegree := inDegree_set (st_inDegree st) t (plusOne (inDegree_get (st_inDegree st) t))\<rparr>))"
    unfolding addEdge_def Let_def by auto
  show ?thesis
  proof (cases "G_link (st_G st) s t")
    case (Inl err)
    with e assms show ?thesis by simp
  next
    case (Inr G')
    with e assms have "st' = st\<lparr>st_edges := st_edges st @ [newEdge s t], st_G := G',
            st_inDegree := inDegree_set (st_inDegree st) t (plusOne (inDegree_get (st_inDegree st) t))\<rparr>"
      by simp
    with True Inr new show ?thesis by blast
  qed
qed

lemma addEdge_nodes: "addEdge names t st s = Inr st' \<Longrightarrow> st_nodes st' = st_nodes st"
  by (erule addEdge_cases) simp_all

lemma addEdges_invariant:
  assumes "addEdges names t st ss = Inr st'" "P st"
    and step: "\<And>st s st'. P st \<Longrightarrow> addEdge names t st s = Inr st' \<Longrightarrow> P st'"
  shows "P st'"
  using assms(1,2)
proof (induction ss arbitrary: st)
  case Nil
  then show ?case by simp
next
  case (Cons s ss)
  from Cons.prems(1) obtain st1 where a: "addEdge names t st s = Inr st1"
    and b: "addEdges names t st1 ss = Inr st'" by (auto split: sum.splits)
  from Cons.IH [OF b step [OF Cons.prems(2) a]] show ?case .
qed

lemma inferEdges_invariant:
  assumes "inferEdges names st cs = Inr st'" "P st"
    and step: "\<And>st s st' t. t \<in> call_name ` set cs \<Longrightarrow> P st \<Longrightarrow>
                 addEdge names t st s = Inr st' \<Longrightarrow> P st'"
  shows "P st'"
  using assms
proof (induction cs arbitrary: st)
  case Nil
  then show ?case by simp
next
  case (Cons c cs)
  from Cons.prems(1) obtain st1 where
    a: "addEdges names (call_name c) st (execRefs (call_inputs c)) = Inr st1"
    and b: "inferEdges names st1 cs = Inr st'" by (auto split: sum.splits)
  have "P st1"
    by (rule addEdges_invariant [where P = P, OF a Cons.prems(2)]) (rule Cons.prems(3), simp_all)
  show ?case
    by (rule Cons.IH [OF b \<open>P st1\<close>]) (rule Cons.prems(3), simp_all)
qed

lemma inferEdges_nodes: "inferEdges names st cs = Inr st' \<Longrightarrow> st_nodes st' = st_nodes st"
  by (erule inferEdges_invariant [where P = "\<lambda>s. st_nodes s = st_nodes st"])
    (simp_all add: addEdge_nodes)

lemma buildGraph_nodes:
  assumes "buildGraph names src = Inr st"
  shows "distinct (map node_id (st_nodes st))"
    and "set (map node_id (st_nodes st)) = set (map call_name (calledProcessInstances names src))"
    and "list_all freshNode (st_nodes st)"
proof -
  let ?cs = "calledProcessInstances names src"
  from assms have "st_nodes st = st_nodes (foldl addNode emptyBuildState ?cs)"
    by (auto simp: buildGraph_def Let_def dest: inferEdges_nodes)
  moreover have "distinct (map node_id (st_nodes (foldl addNode emptyBuildState ?cs)))"
    by (rule foldl_addNode_distinct) (simp add: emptyBuildState_def)
  moreover have "set (map node_id (st_nodes (foldl addNode emptyBuildState ?cs))) = set (map call_name ?cs)"
    by (simp add: foldl_addNode_ids emptyBuildState_def del: set_map)
  moreover have "list_all freshNode (st_nodes (foldl addNode emptyBuildState ?cs))"
    by (rule foldl_addNode_fresh) (simp add: emptyBuildState_def)
  ultimately show "distinct (map node_id (st_nodes st))"
    and "set (map node_id (st_nodes st)) = set (map call_name (calledProcessInstances names src))"
    and "list_all freshNode (st_nodes st)" by simp_all
qed

lemma called_names_declared:
  "c \<in> set (calledProcessInstances names src) \<Longrightarrow> call_name c \<in> set names"
proof -
  assume "c \<in> set (calledProcessInstances names src)"
  then obtain k i n a where c: "c = \<lparr>call_name = n, call_index = k, call_inputs = a\<rparr>"
    and k: "k < length (filter (\<lambda>(i, n, a). n \<in> set names) (execCalls 0 src))"
    and m: "filter (\<lambda>(i, n, a). n \<in> set names) (execCalls 0 src) ! k = (i, n, a)"
    by (auto simp: calledProcessInstances_def in_set_enumerate_eq)
  from nth_mem [OF k] m have "(i, n, a) \<in> set (filter (\<lambda>(i, n, a). n \<in> set names) (execCalls 0 src))"
    by simp
  with c show ?thesis by simp
qed

subsection \<open>The layout keeps every field but the coordinates\<close>

lemma sameNode_refl [simp]: "sameNode n n"
  by (simp add: sameNode_def)

lemma sameNode_moved [simp]: "sameNode n (n\<lparr>node_x := a, node_y := b\<rparr>)"
  by (simp add: sameNode_def)

lemma placeNode_fst:
  "fst (placeNode y (ns, x) k) =
     (if nodeMap_has ns k
      then map (\<lambda>n. if node_id n = k then n\<lparr>node_x := x, node_y := y\<rparr> else n) ns else ns)"
  by (simp add: placeNode_def)

lemma placeNode_same:
  "list_all2 sameNode ns (fst (placeNode y (ns, x) k))"
  unfolding placeNode_fst by (simp add: list_all2_map2 list_all2_same)

lemma sameNode_trans: "sameNode a b \<Longrightarrow> sameNode b c \<Longrightarrow> sameNode a c"
  by (simp add: sameNode_def)

lemma list_all2_sameNode_trans:
  "list_all2 sameNode xs ys \<Longrightarrow> list_all2 sameNode ys zs \<Longrightarrow> list_all2 sameNode xs zs"
  by (rule list_all2_trans [of sameNode sameNode sameNode]) (auto intro: sameNode_trans)

lemma foldl_placeNode_same:
  "list_all2 sameNode ns (fst (foldl (placeNode y) (ns, x) ks))"
proof (induction ks arbitrary: ns x)
  case Nil
  show ?case by (simp add: list_all2_same)
next
  case (Cons k ks)
  obtain ns' x' where p: "placeNode y (ns, x) k = (ns', x')" by (cases "placeNode y (ns, x) k")
  have "list_all2 sameNode ns ns'" using placeNode_same [of ns y x k] p by simp
  moreover have "list_all2 sameNode ns' (fst (foldl (placeNode y) (ns', x') ks))" by (rule Cons.IH)
  ultimately have "list_all2 sameNode ns (fst (foldl (placeNode y) (ns', x') ks))"
    by (rule list_all2_sameNode_trans)
  then show ?case using p by simp
qed

lemma placeLayer_same: "list_all2 sameNode ns (placeLayer canvas ns i layer)"
  unfolding placeLayer_def by (rule foldl_placeNode_same)

lemma placeLayers_same: "list_all2 sameNode ns (placeLayers canvas i layers ns)"
proof (induction layers arbitrary: i ns)
  case Nil
  show ?case by (simp add: list_all2_same)
next
  case (Cons l ls)
  have "list_all2 sameNode ns (placeLayers canvas (Suc i) ls (placeLayer canvas ns i l))"
    using placeLayer_same [of ns canvas i l] Cons.IH [of "placeLayer canvas ns i l" "Suc i"]
    by (rule list_all2_sameNode_trans)
  then show ?case by simp
qed

lemma sameNode_ids: "list_all2 sameNode ns ms \<Longrightarrow> map node_id ms = map node_id ns"
  by (induction rule: list_all2_induct) (simp_all add: sameNode_def)

lemma placeLayers_ids [simp]: "map node_id (placeLayers canvas i layers ns) = map node_id ns"
  using placeLayers_same by (rule sameNode_ids)

lemma placeLayers_fresh:
  assumes "\<forall>n \<in> set ns. node_name n = node_id n" "m \<in> set (placeLayers canvas i layers ns)"
  shows "node_name m = node_id m"
proof -
  from assms(2) obtain j where j: "j < length (placeLayers canvas i layers ns)"
    and m: "m = placeLayers canvas i layers ns ! j" by (auto simp: in_set_conv_nth)
  from placeLayers_same [of ns canvas i layers] j
  have "j < length ns" and "sameNode (ns ! j) m"
    by (simp_all add: list_all2_conv_all_nth m)
  with assms(1) show ?thesis by (auto simp: sameNode_def)
qed

subsection \<open>Edges\<close>

lemma routeEdge_same [simp]:
  "edge_id (routeEdge ns e) = edge_id e"
  "edge_source (routeEdge ns e) = edge_source e"
  "edge_target (routeEdge ns e) = edge_target e"
  by (cases "nodeMap_get ns (edge_source e)"; cases "nodeMap_get ns (edge_target e)";
      simp add: routeEdge_def Let_def split_beta)+

lemma addEdge_ok:
  assumes "addEdge names t st s = Inr st'" "t \<in> T" "edgesOk (set names) T (st_edges st)"
  shows "edgesOk (set names) T (st_edges st')"
  using assms(1)
proof (cases rule: addEdge_cases)
  case same
  with assms(3) show ?thesis by simp
next
  case (new G')
  have "edge_id (newEdge s t) = s @ ''->'' @ t" "edge_source (newEdge s t) = s"
    "edge_target (newEdge s t) = t" by (simp_all add: newEdge_def)
  with new assms(2,3) show ?thesis by (auto simp: edgesOk_def)
qed

lemma inferEdges_ok:
  assumes "inferEdges names st cs = Inr st'" "call_name ` set cs \<subseteq> T"
    "edgesOk (set names) T (st_edges st)"
  shows "edgesOk (set names) T (st_edges st')"
  by (rule inferEdges_invariant [OF assms(1), where P = "\<lambda>s. edgesOk (set names) T (st_edges s)"])
    (use assms(2,3) in \<open>auto intro: addEdge_ok\<close>)

lemma buildGraph_edges:
  assumes "buildGraph names src = Inr st"
  shows "edgesOk (set names) (call_name ` set (calledProcessInstances names src)) (st_edges st)"
proof -
  from assms have "inferEdges names (foldl addNode emptyBuildState (calledProcessInstances names src))
      (calledProcessInstances names src) = Inr st" by (simp add: buildGraph_def Let_def)
  from inferEdges_ok [OF this subset_refl] show ?thesis
    by (simp add: edgesOk_def emptyBuildState_def)
qed

lemma edgesOk_pairs:
  assumes "edgesOk S T es"
  shows "distinct (map (\<lambda>e. (edge_source e, edge_target e)) es)"
proof -
  from assms have d: "distinct (map edge_id es)"
    and i: "\<forall>e \<in> set es. edge_id e = edge_source e @ ''->'' @ edge_target e"
    by (simp_all add: edgesOk_def)
  have "map edge_id es = map ((\<lambda>(s, t). s @ ''->'' @ t) \<circ> (\<lambda>e. (edge_source e, edge_target e))) es"
    using i by simp
  with d have "distinct (map ((\<lambda>(s, t). s @ ''->'' @ t) \<circ> (\<lambda>e. (edge_source e, edge_target e))) es)"
    by simp
  then show ?thesis by (simp only: map_map [symmetric] distinct_map)
qed

subsection \<open>The result of \<^verbatim>\<open>parseWorkflow\<close>\<close>

lemma parseWorkflow_Inr:
  assumes "parseWorkflow canvas (Textual src) processes = Inr vis"
  obtains st layers where "buildGraph (map proc_name processes) src = Inr st"
    and "layering (st_G st) (st_inDegree st) (initialQueue (st_nodes st) (st_inDegree st)) = Inr layers"
    and "nodes vis = placeLayers canvas 0 layers (st_nodes st)"
    and "edges vis = map (routeEdge (nodes vis)) (st_edges st)"
proof (cases "buildGraph (map proc_name processes) src")
  case (Inl err)
  with assms show ?thesis by (simp add: parseWorkflow_def)
next
  case st: (Inr st)
  show ?thesis
  proof (cases "layering (st_G st) (st_inDegree st) (initialQueue (st_nodes st) (st_inDegree st))")
    case (Inl err)
    with assms st show ?thesis by (simp add: parseWorkflow_def)
  next
    case (Inr layers)
    with assms st have "vis = \<lparr>nodes = placeLayers canvas 0 layers (st_nodes st),
        edges = map (routeEdge (placeLayers canvas 0 layers (st_nodes st))) (st_edges st)\<rparr>"
      by (simp add: parseWorkflow_def Let_def)
    then have "nodes vis = placeLayers canvas 0 layers (st_nodes st)"
      and "edges vis = map (routeEdge (nodes vis)) (st_edges st)" by simp_all
    with st Inr that show ?thesis by blast
  qed
qed

lemma parseWorkflow_eval:
  assumes "buildGraph (map proc_name processes) src = Inr st"
    and "layering (st_G st) (st_inDegree st) (initialQueue (st_nodes st) (st_inDegree st)) = Inr layers"
  shows "parseWorkflow canvas (Textual src) processes =
     Inr \<lparr>nodes = placeLayers canvas 0 layers (st_nodes st),
          edges = map (routeEdge (placeLayers canvas 0 layers (st_nodes st))) (st_edges st)\<rparr>"
  using assms by (simp add: parseWorkflow_def Let_def)

lemma count_distinct:
  "distinct (map f xs) \<Longrightarrow> length (filter (\<lambda>x. f x = p) xs) = (if p \<in> set (map f xs) then 1 else 0)"
  by (induction xs) auto

section \<open>Where the layout puts a node\<close>

lemma nodeMap_get_id: "nodeMap_get ns k = Some n \<Longrightarrow> node_id n = k"
  by (auto simp: nodeMap_get_def find_Some_iff)

lemma nodeMap_get_has: "nodeMap_has ns k \<Longrightarrow> \<exists>n. nodeMap_get ns k = Some n"
  by (induction ns) (auto simp: nodeMap_get_def nodeMap_has_def)

lemma nodeMap_get_map:
  assumes "\<And>n. node_id (f n) = node_id n"
  shows "nodeMap_get (map f ns) k = map_option f (nodeMap_get ns k)"
  by (induction ns) (auto simp: nodeMap_get_def assms)

lemma placeNode_get:
  "nodeMap_get (fst (placeNode y (ns, x) k)) k' =
     (if nodeMap_has ns k
      then map_option (\<lambda>n. if node_id n = k then n\<lparr>node_x := x, node_y := y\<rparr> else n) (nodeMap_get ns k')
      else nodeMap_get ns k')"
  unfolding placeNode_fst by (simp add: nodeMap_get_map)

lemma placeNode_get_other:
  "k' \<noteq> k \<Longrightarrow> nodeMap_get (fst (placeNode y (ns, x) k)) k' = nodeMap_get ns k'"
  unfolding placeNode_get
  by (cases "nodeMap_get ns k'") (auto dest: nodeMap_get_id)

lemma placeNode_get_self:
  "nodeMap_has ns k \<Longrightarrow> placedAt (fst (placeNode y (ns, x) k)) k x y"
proof -
  assume h: "nodeMap_has ns k"
  then obtain n where n: "nodeMap_get ns k = Some n" by (auto dest: nodeMap_get_has)
  then have "node_id n = k" by (rule nodeMap_get_id)
  with h n have "nodeMap_get (fst (placeNode y (ns, x) k)) k = Some (n\<lparr>node_x := x, node_y := y\<rparr>)"
    unfolding placeNode_get by simp
  then show ?thesis by (simp add: placedAt_def)
qed

lemma placeNode_snd:
  "snd (placeNode y (ns, x) k) = (if nodeMap_has ns k then x + NODE_WIDTH + X_SPACING else x)"
  by (simp add: placeNode_def)

lemma placeNode_has: "nodeMap_has (fst (placeNode y (ns, x) k)) k' = nodeMap_has ns k'"
  unfolding placeNode_fst by (simp add: nodeMap_has_def comp_def if_distrib cong: if_cong)

lemma foldl_placeNode_other:
  "k \<notin> set l \<Longrightarrow> nodeMap_get (fst (foldl (placeNode y) (ns, x) l)) k = nodeMap_get ns k"
proof (induction l arbitrary: ns x)
  case Nil
  show ?case by simp
next
  case (Cons a l)
  obtain ns' x' where p: "placeNode y (ns, x) a = (ns', x')" by (cases "placeNode y (ns, x) a")
  have "nodeMap_get ns' k = nodeMap_get ns k"
    using placeNode_get_other [of k a y ns x] Cons.prems p by simp
  with Cons.IH [of ns' x'] Cons.prems p show ?case by simp
qed

lemma foldl_placeNode_at:
  "distinct l \<Longrightarrow> \<forall>k \<in> set l. nodeMap_has ns k \<Longrightarrow> j < length l \<Longrightarrow>
   placedAt (fst (foldl (placeNode y) (ns, x) l)) (l ! j) (x + real j * (NODE_WIDTH + X_SPACING)) y"
proof (induction l arbitrary: ns x j)
  case Nil
  then show ?case by simp
next
  case (Cons a l)
  obtain ns' x' where p: "placeNode y (ns, x) a = (ns', x')" by (cases "placeNode y (ns, x) a")
  have x': "x' = x + NODE_WIDTH + X_SPACING"
    using placeNode_snd [of y ns x a] p Cons.prems(2) by simp
  have has': "\<forall>k \<in> set l. nodeMap_has ns' k"
    using placeNode_has [of y ns x a] p Cons.prems(2) by simp
  show ?case
  proof (cases j)
    case 0
    have "placedAt ns' a x y" using placeNode_get_self [of ns a y x] p Cons.prems(2) by simp
    moreover have "nodeMap_get (fst (foldl (placeNode y) (ns', x') l)) a = nodeMap_get ns' a"
      using Cons.prems(1) by (intro foldl_placeNode_other) simp
    ultimately show ?thesis using 0 p by (simp add: placedAt_def)
  next
    case (Suc j')
    from Cons.IH [of ns' j' x'] Cons.prems has' Suc
    have "placedAt (fst (foldl (placeNode y) (ns', x') l)) (l ! j')
        (x' + real j' * (NODE_WIDTH + X_SPACING)) y" by simp
    moreover have "x' + real j' * (NODE_WIDTH + X_SPACING) = x + real (Suc j') * (NODE_WIDTH + X_SPACING)"
      unfolding x' by (simp add: algebra_simps)
    ultimately show ?thesis using Suc p by simp
  qed
qed

lemma placeLayer_has: "nodeMap_has (placeLayer canvas ns i l) k = nodeMap_has ns k"
  using sameNode_ids [OF placeLayer_same [of ns canvas i l]] by (simp add: nodeMap_has_def)

lemma placeLayers_other:
  "k \<notin> set (concat layers) \<Longrightarrow> nodeMap_get (placeLayers canvas i layers ns) k = nodeMap_get ns k"
proof (induction layers arbitrary: i ns)
  case Nil
  show ?case by simp
next
  case (Cons l ls)
  have "nodeMap_get (placeLayer canvas ns i l) k = nodeMap_get ns k"
    unfolding placeLayer_def using Cons.prems by (intro foldl_placeNode_other) simp
  with Cons.IH [of "Suc i" "placeLayer canvas ns i l"] Cons.prems show ?case by simp
qed

lemma placeLayers_at:
  "distinct (concat layers) \<Longrightarrow> \<forall>k \<in> set (concat layers). nodeMap_has ns k \<Longrightarrow>
   a < length layers \<Longrightarrow> j < length (layers ! a) \<Longrightarrow>
   placedAt (placeLayers canvas i layers ns) (layers ! a ! j)
     (layerStartX canvas (layers ! a) + real j * (NODE_WIDTH + X_SPACING))
     (real (i + a) * (NODE_HEIGHT + Y_SPACING) + Y_SPACING)"
proof (induction layers arbitrary: i ns a)
  case Nil
  then show ?case by simp
next
  case (Cons l ls)
  show ?case
  proof (cases a)
    case 0
    have d: "distinct l" and has: "\<forall>k \<in> set l. nodeMap_has ns k" using Cons.prems by simp_all
    have j: "j < length l" using Cons.prems(4) 0 by simp
    have "placedAt (placeLayer canvas ns i l) (l ! j)
        (layerStartX canvas l + real j * (NODE_WIDTH + X_SPACING))
        (real i * (NODE_HEIGHT + Y_SPACING) + Y_SPACING)"
      unfolding placeLayer_def by (rule foldl_placeNode_at [OF d has j])
    moreover have "l ! j \<notin> set (concat ls)" using Cons.prems(1) j by (auto simp: disjoint_iff)
    then have "nodeMap_get (placeLayers canvas (Suc i) ls (placeLayer canvas ns i l)) (l ! j) =
        nodeMap_get (placeLayer canvas ns i l) (l ! j)" by (rule placeLayers_other)
    ultimately show ?thesis using 0 by (simp add: placedAt_def)
  next
    case (Suc a')
    have "placedAt (placeLayers canvas (Suc i) ls (placeLayer canvas ns i l)) (ls ! a' ! j)
        (layerStartX canvas (ls ! a') + real j * (NODE_WIDTH + X_SPACING))
        (real (Suc i + a') * (NODE_HEIGHT + Y_SPACING) + Y_SPACING)"
      using Cons.prems Suc by (intro Cons.IH) (simp_all add: placeLayer_has)
    then show ?thesis using Suc by simp
  qed
qed

section \<open>The layers\<close>

text \<open>
  No id is enqueued twice: an id is enqueued when its counter goes from 1 to 0, and the
  counter of an enqueued id is 0 or less from then on.
\<close>

lemma spent_counted: "spent d u \<Longrightarrow> counted d u"
  by (auto simp: spent_def counted_def)

lemma inDegree_get_set_other:
  "u \<noteq> v \<Longrightarrow> inDegree_get (inDegree_set d v x) u = inDegree_get d u"
  by (simp add: inDegree_get_def inDegree_set_def AList.update_conv')

lemma inDegree_get_set_same:
  "v \<noteq> ''__proto__'' \<Longrightarrow> inDegree_get (inDegree_set d v x) v = x"
  by (simp add: inDegree_get_def inDegree_set_def AList.update_conv')

lemma inDegree_get_proto: "inDegree_get d ''__proto__'' = DObjectOrFunction"
  by (simp add: inDegree_get_def)

lemma relax_get:
  assumes "relax v (d, q) = (d', q')"
  shows "inDegree_get d' u =
      (if u = v \<and> v \<noteq> ''__proto__'' then minusOne (inDegree_get d v) else inDegree_get d u)"
    and "q' = (if minusOne (inDegree_get d v) = Num 0 then q @ [v] else q)"
proof -
  from assms have d': "d' = inDegree_set d v (minusOne (inDegree_get d v))"
    and q': "q' = (if inDegree_get d' v = Num 0 then q @ [v] else q)"
    by (auto simp: relax_def Let_def)
  show g: "inDegree_get d' u =
      (if u = v \<and> v \<noteq> ''__proto__'' then minusOne (inDegree_get d v) else inDegree_get d u)"
    for u
  proof (cases "v = ''__proto__''")
    case True
    then show ?thesis unfolding d' by (simp add: inDegree_set_def)
  next
    case False
    then show ?thesis unfolding d'
      by (cases "u = v") (simp_all add: inDegree_get_set_other inDegree_get_set_same)
  qed
  show "q' = (if minusOne (inDegree_get d v) = Num 0 then q @ [v] else q)"
    unfolding q' g [of v] by (cases "v = ''__proto__''") (simp_all add: inDegree_get_proto)
qed

lemma minusOne_Num: "minusOne x = Num m \<Longrightarrow> x = Num (m + 1)"
  by (cases x) auto

lemma relax_spent:
  assumes "relax v (d, q) = (d', q')"
  shows "spent d u \<Longrightarrow> spent d' u" and "counted d' u \<Longrightarrow> counted d u"
    and "q' = q \<or> (q' = q @ [v] \<and> \<not> spent d v \<and> spent d' v)"
proof -
  note g = relax_get [OF assms]
  show "spent d u \<Longrightarrow> spent d' u"
    unfolding spent_def g(1) [of u] by (auto split: if_splits)
  show "counted d' u \<Longrightarrow> counted d u"
    unfolding counted_def g(1) [of u] by (auto split: if_splits dest: minusOne_Num)
  show "q' = q \<or> (q' = q @ [v] \<and> \<not> spent d v \<and> spent d' v)"
  proof (cases "minusOne (inDegree_get d v) = Num 0")
    case False
    with g(2) show ?thesis by simp
  next
    case True
    then have old: "inDegree_get d v = Num 1" by (auto dest: minusOne_Num)
    then have "v \<noteq> ''__proto__''" by (auto simp: inDegree_get_proto)
    with True old g show ?thesis by (auto simp: spent_def)
  qed
qed

lemma fold_relax_spent:
  assumes "fold relax vs (d, q) = (d', q')" "\<forall>u \<in> S. spent d u"
  shows "\<exists>new. q' = q @ new \<and> distinct new \<and> set new \<inter> S = {} \<and>
           (\<forall>u \<in> S \<union> set new. spent d' u) \<and> (\<forall>u. counted d' u \<longrightarrow> counted d u)"
  using assms
proof (induction vs arbitrary: d q S)
  case Nil
  then show ?case by simp
next
  case (Cons v vs)
  obtain d1 q1 where r: "relax v (d, q) = (d1, q1)" by (cases "relax v (d, q)")
  with Cons.prems(1) have f: "fold relax vs (d1, q1) = (d', q')" by simp
  note rs = relax_spent [OF r]
  from rs(3) show ?case
  proof
    assume q1: "q1 = q"
    have "\<forall>u \<in> S. spent d1 u" using Cons.prems(2) rs(1) by blast
    from Cons.IH [OF f this] obtain new where n: "q' = q1 @ new" "distinct new" "set new \<inter> S = {}"
      "\<forall>u \<in> S \<union> set new. spent d' u" "\<forall>u. counted d' u \<longrightarrow> counted d1 u" by blast
    with q1 rs(2) show ?thesis by (intro exI [of _ new]) auto
  next
    assume a: "q1 = q @ [v] \<and> \<not> spent d v \<and> spent d1 v"
    have "\<forall>u \<in> insert v S. spent d1 u" using Cons.prems(2) rs(1) a by blast
    from Cons.IH [OF f this] obtain new where n: "q' = q1 @ new" "distinct new"
      "set new \<inter> insert v S = {}" "\<forall>u \<in> insert v S \<union> set new. spent d' u"
      "\<forall>u. counted d' u \<longrightarrow> counted d1 u" by blast
    have "v \<notin> S" using a Cons.prems(2) by blast
    with n a rs(2) show ?thesis by (intro exI [of _ "v # new"]) auto
  qed
qed

lemma visit_spent:
  assumes "visit G (d, q, l) u = Inr (d', q', l')" "\<forall>u \<in> S. spent d u"
  shows "\<exists>new. q' = q @ new \<and> distinct new \<and> set new \<inter> S = {} \<and>
           (\<forall>u \<in> S \<union> set new. spent d' u) \<and> (\<forall>u. counted d' u \<longrightarrow> counted d u) \<and>
           l' = l @ filter (\<lambda>u. u \<noteq> []) [u]"
proof (cases "u = []")
  case True
  with assms show ?thesis by (simp add: visit_def)
next
  case False
  with assms(1) obtain vs where "G_successors G u = Inr vs"
    and f: "fold relax vs (d, q) = (d', q')" and l': "l' = l @ [u]"
    by (auto simp: visit_def Let_def split: sum.splits prod.splits)
  from fold_relax_spent [OF f assms(2)] False l' show ?thesis by simp
qed

lemma visitAll_spent:
  assumes "visitAll G (d, q, l) us = Inr (d', q', l')" "\<forall>u \<in> S. spent d u"
  shows "\<exists>new. q' = q @ new \<and> distinct new \<and> set new \<inter> S = {} \<and>
           (\<forall>u \<in> S \<union> set new. spent d' u) \<and> (\<forall>u. counted d' u \<longrightarrow> counted d u) \<and>
           l' = l @ filter (\<lambda>u. u \<noteq> []) us"
  using assms
proof (induction us arbitrary: d q l S)
  case Nil
  then show ?case by simp
next
  case (Cons u us)
  from Cons.prems(1) obtain d1 q1 l1 where v: "visit G (d, q, l) u = Inr (d1, q1, l1)"
    and r: "visitAll G (d1, q1, l1) us = Inr (d', q', l')"
    by (auto split: sum.splits)
  from visit_spent [OF v Cons.prems(2)] obtain new1 where n1: "q1 = q @ new1" "distinct new1"
    "set new1 \<inter> S = {}" "\<forall>u \<in> S \<union> set new1. spent d1 u" "\<forall>u. counted d1 u \<longrightarrow> counted d u"
    "l1 = l @ filter (\<lambda>u. u \<noteq> []) [u]" by blast
  from Cons.IH [OF r n1(4)] obtain new2 where n2: "q' = q1 @ new2" "distinct new2"
    "set new2 \<inter> (S \<union> set new1) = {}" "\<forall>u \<in> S \<union> set new1 \<union> set new2. spent d' u"
    "\<forall>u. counted d' u \<longrightarrow> counted d1 u" "l' = l1 @ filter (\<lambda>u. u \<noteq> []) us" by blast
  from n1 n2 show ?case by (intro exI [of _ "new1 @ new2"]) auto
qed

lemma layering_distinct:
  assumes "layering G d queue = Inr layers" "distinct queue" "\<forall>u \<in> S. spent d u" "set queue \<subseteq> S"
  shows "distinct (concat layers) \<and> set (concat layers) \<inter> (S - set queue) = {} \<and>
         (\<forall>u \<in> set (concat layers). counted d u)"
  using assms
proof (induction G d queue arbitrary: layers S rule: layering.induct)
  case (1 G d queue)
  show ?case
  proof (cases "queue = []")
    case True
    with "1.prems"(1) show ?thesis by (simp add: layering.simps)
  next
    case False
    with "1.prems"(1) obtain d' queue' layer ls where
      v: "visitAll G (d, [], []) queue = Inr (d', queue', layer)"
      and r: "layering G d' queue' = Inr ls" and layers: "layers = layer # ls"
      by (auto simp: layering.simps [of G d queue] split: sum.splits prod.splits)
    from visitAll_spent [OF v "1.prems"(3)] have new: "distinct queue'" "set queue' \<inter> S = {}"
      "\<forall>u \<in> S \<union> set queue'. spent d' u" "\<forall>u. counted d' u \<longrightarrow> counted d u"
      and layer: "layer = filter (\<lambda>u. u \<noteq> []) queue" by auto
    from "1.IH" [OF False v refl refl r new(1) new(3)]
    have ih: "distinct (concat ls)" "set (concat ls) \<inter> (S \<union> set queue' - set queue') = {}"
      "\<forall>u \<in> set (concat ls). counted d' u" by auto
    have dis: "set (concat ls) \<inter> S = {}" using ih(2) new(2) by auto
    have sub: "set layer \<subseteq> set queue" and dl: "distinct layer" using layer "1.prems"(2) by auto
    have cl: "\<forall>u \<in> set layer. counted d u"
      using sub "1.prems"(3,4) by (auto intro: spent_counted)
    have "set layer \<inter> set (concat ls) = {}" using sub "1.prems"(4) dis by blast
    then have "distinct (concat (layer # ls))" using dl ih(1) by simp
    moreover have "set (concat (layer # ls)) \<inter> (S - set queue) = {}" using sub dis by auto
    moreover have "\<forall>u \<in> set (concat (layer # ls)). counted d u"
      using cl ih(3) new(4) by auto
    ultimately show ?thesis unfolding layers by blast
  qed
qed

lemma inDegree_set_keys:
  "k' \<in> fst ` set (inDegree_set d k v) \<Longrightarrow> k' = k \<or> k' \<in> fst ` set d"
  by (auto simp: inDegree_set_def AList.dom_update split: if_splits)

lemma addNode_keys:
  assumes "fst ` set (st_inDegree st) \<subseteq> set (map node_id (st_nodes st))"
  shows "fst ` set (st_inDegree (addNode st c)) \<subseteq> set (map node_id (st_nodes (addNode st c)))"
proof (cases "nodeMap_has (st_nodes st) (call_name c)")
  case True
  with assms show ?thesis by (simp add: addNode_def)
next
  case False
  have "k \<in> set (map node_id (st_nodes st @ [newNode (call_name c)]))"
    if "k \<in> fst ` set (inDegree_set (st_inDegree st) (call_name c) (Num 0))" for k
    using inDegree_set_keys [OF that] assms by (auto simp: newNode_def)
  with False show ?thesis by (auto simp: addNode_def simp del: set_map)
qed

lemma foldl_addNode_keys:
  "fst ` set (st_inDegree st) \<subseteq> set (map node_id (st_nodes st)) \<Longrightarrow>
   fst ` set (st_inDegree (foldl addNode st cs)) \<subseteq> set (map node_id (st_nodes (foldl addNode st cs)))"
  by (induction cs arbitrary: st) (simp_all add: addNode_keys del: set_map)

lemma addEdge_keys:
  assumes "addEdge names t st s = Inr st'" "t \<in> N" "fst ` set (st_inDegree st) \<subseteq> N"
  shows "fst ` set (st_inDegree st') \<subseteq> N"
  using assms(1)
proof (cases rule: addEdge_cases)
  case same
  with assms(3) show ?thesis by simp
next
  case (new G')
  have "k \<in> N" if "k \<in> fst ` set (inDegree_set (st_inDegree st) t
      (plusOne (inDegree_get (st_inDegree st) t)))" for k
    using inDegree_set_keys [OF that] assms(2,3) by blast
  with new(5) show ?thesis by (auto simp del: set_map)
qed

lemma buildGraph_keys:
  assumes "buildGraph names src = Inr st"
  shows "fst ` set (st_inDegree st) \<subseteq> set (map node_id (st_nodes st))"
proof -
  let ?cs = "calledProcessInstances names src"
  let ?st1 = "foldl addNode emptyBuildState ?cs"
  let ?N = "set (map node_id (st_nodes ?st1))"
  from assms have i: "inferEdges names ?st1 ?cs = Inr st" by (simp add: buildGraph_def Let_def)
  have k1: "fst ` set (st_inDegree ?st1) \<subseteq> ?N"
    by (rule foldl_addNode_keys) (simp add: emptyBuildState_def)
  have N: "call_name ` set ?cs \<subseteq> ?N"
    unfolding foldl_addNode_ids by simp
  have "fst ` set (st_inDegree st) \<subseteq> ?N"
  proof (rule inferEdges_invariant [OF i, where P = "\<lambda>s. fst ` set (st_inDegree s) \<subseteq> ?N"])
    show "fst ` set (st_inDegree ?st1) \<subseteq> ?N" by (rule k1)
  next
    fix st0 s st' t
    assume "t \<in> call_name ` set ?cs" "fst ` set (st_inDegree st0) \<subseteq> ?N"
      "addEdge names t st0 s = Inr st'"
    with N show "fst ` set (st_inDegree st') \<subseteq> ?N"
      by (intro addEdge_keys [of names t st0 s st' ?N]) auto
  qed
  with inferEdges_nodes [OF i] show ?thesis by simp
qed

lemma counted_key: "counted d u \<Longrightarrow> u \<in> fst ` set d"
  by (auto simp: counted_def inDegree_get_def split: if_splits option.splits dest: map_of_SomeD
      intro: rev_image_eqI)

lemma initialQueue_ok:
  assumes "distinct (map node_id ns)"
  shows "distinct (initialQueue ns d)" and "\<forall>u \<in> set (initialQueue ns d). spent d u"
    and "set (initialQueue ns d) \<subseteq> set (map node_id ns)"
  using assms by (auto simp: initialQueue_def spent_def distinct_map_filter)

lemma layers_are_nodes:
  assumes "buildGraph names src = Inr st"
    and "layering (st_G st) (st_inDegree st) (initialQueue (st_nodes st) (st_inDegree st)) = Inr layers"
  shows "distinct (concat layers)" and "\<forall>k \<in> set (concat layers). nodeMap_has (st_nodes st) k"
proof -
  note q = initialQueue_ok [OF buildGraph_nodes(1) [OF assms(1)], of "st_inDegree st"]
  from layering_distinct [OF assms(2) q(1) q(2) subset_refl]
  have d: "distinct (concat layers)" and c: "\<forall>u \<in> set (concat layers). counted (st_inDegree st) u"
    by simp_all
  show "distinct (concat layers)" by (rule d)
  show "\<forall>k \<in> set (concat layers). nodeMap_has (st_nodes st) k"
  proof
    fix k assume "k \<in> set (concat layers)"
    with c have "counted (st_inDegree st) k" by blast
    then have "k \<in> fst ` set (st_inDegree st)" by (rule counted_key)
    with buildGraph_keys [OF assms(1)] show "nodeMap_has (st_nodes st) k"
      unfolding nodeMap_has_def by blast
  qed
qed

section \<open>Runs on given inputs\<close>

text \<open>The equations that evaluate the layout and the curves on given nodes.\<close>

lemmas layout_eval = placeLayer_def layerStartX_def placeNode_def nodeMap_has_def nodeMap_get_def
  newNode_def newEdge_def NODE_WIDTH_def NODE_HEIGHT_def X_SPACING_def Y_SPACING_def Let_def

lemma sqrt_3600: "sqrt 3600 = 60"
  by (rule real_sqrt_unique) simp_all

subsection \<open>Three independent calls\<close>

lemma three_graph:
  "buildGraph (map proc_name [process ''A'', process ''B'', process ''C'']) ''A() B() C()'' =
     Inr \<lparr>st_nodes = [newNode ''A'', newNode ''B'', newNode ''C''], st_edges = [],
          st_G = \<lparr>G_own = [(''A'', []), (''B'', []), (''C'', [])], G_proto = None\<rparr>,
          st_inDegree = [(''A'', Num 0), (''B'', Num 0), (''C'', Num 0)]\<rparr>"
  by code_simp

lemma three_layers:
  "layering \<lparr>G_own = [(''A'', []), (''B'', []), (''C'', [])], G_proto = None\<rparr>
     [(''A'', Num 0), (''B'', Num 0), (''C'', Num 0)]
     (initialQueue [newNode ''A'', newNode ''B'', newNode ''C'']
        [(''A'', Num 0), (''B'', Num 0), (''C'', Num 0)]) = Inr [[''A'', ''B'', ''C'']]"
  by code_simp

lemma three_result:
  "parseWorkflow canvas (Textual ''A() B() C()'') [process ''A'', process ''B'', process ''C''] =
     Inr \<lparr>nodes = [\<lparr>node_id = ''A'', node_name = ''A'',
                      node_x = layerStartX canvas [''A'', ''B'', ''C''],
                      node_y = 100, node_width = 180, node_height = 60\<rparr>,
                    \<lparr>node_id = ''B'', node_name = ''B'',
                      node_x = layerStartX canvas [''A'', ''B'', ''C''] + 260,
                      node_y = 100, node_width = 180, node_height = 60\<rparr>,
                    \<lparr>node_id = ''C'', node_name = ''C'',
                      node_x = layerStartX canvas [''A'', ''B'', ''C''] + 520,
                      node_y = 100, node_width = 180, node_height = 60\<rparr>],
          edges = []\<rparr>"
proof -
  from parseWorkflow_eval [where canvas = canvas, OF three_graph] three_layers
  have "parseWorkflow canvas (Textual ''A() B() C()'') [process ''A'', process ''B'', process ''C''] =
      Inr \<lparr>nodes = placeLayers canvas 0 [[''A'', ''B'', ''C'']]
              [newNode ''A'', newNode ''B'', newNode ''C''], edges = []\<rparr>"
    by simp
  also have "placeLayers canvas 0 [[''A'', ''B'', ''C'']] [newNode ''A'', newNode ''B'', newNode ''C''] =
      [\<lparr>node_id = ''A'', node_name = ''A'',
                      node_x = layerStartX canvas [''A'', ''B'', ''C''],
                      node_y = 100, node_width = 180, node_height = 60\<rparr>,
                    \<lparr>node_id = ''B'', node_name = ''B'',
                      node_x = layerStartX canvas [''A'', ''B'', ''C''] + 260,
                      node_y = 100, node_width = 180, node_height = 60\<rparr>,
                    \<lparr>node_id = ''C'', node_name = ''C'',
                      node_x = layerStartX canvas [''A'', ''B'', ''C''] + 520,
                      node_y = 100, node_width = 180, node_height = 60\<rparr>]"
    by (simp add: layout_eval)
  finally show ?thesis .
qed

lemma three_first_run:
  "runEffect initialCanvasSize (Textual ''A() B() C()'') [process ''A'', process ''B'', process ''C''] =
     \<lparr>visData = \<lparr>nodes = [\<lparr>node_id = ''A'', node_name = ''A'', node_x = 80,
                      node_y = 100, node_width = 180, node_height = 60\<rparr>,
                    \<lparr>node_id = ''B'', node_name = ''B'', node_x = 340,
                      node_y = 100, node_width = 180, node_height = 60\<rparr>,
                    \<lparr>node_id = ''C'', node_name = ''C'', node_x = 600,
                      node_y = 100, node_width = 180, node_height = 60\<rparr>], edges = []\<rparr>,
      errorVisualizing = None,
      canvasSizeForLayout = \<lparr>canvas_width = 940, canvas_height = 600\<rparr>\<rparr>"
  by (simp add: runEffect_def three_result layerStartX_def initialCanvasSize_def maxRight_def
      maxBottom_def NODE_WIDTH_def X_SPACING_def Y_SPACING_def)

section \<open>Node identity\<close>

text \<open>
  C5. The returned nodes hold exactly one node for each process name that occurs in a
  recognized call, and none for any other name; the id of a node is its name. A process
  called three times has one node.
\<close>

theorem one_node_per_called_process:
  assumes "parseWorkflow canvas (Textual src) processes = Inr vis"
  shows "(\<forall>p. length (filter (\<lambda>n. node_id n = p) (nodes vis)) =
            (if p \<in> set (map call_name (calledProcessInstances (map proc_name processes) src))
             then 1 else 0)) \<and>
         (\<forall>n \<in> set (nodes vis). node_name n = node_id n)"
proof -
  from assms obtain st layers where st: "buildGraph (map proc_name processes) src = Inr st"
    and ns: "nodes vis = placeLayers canvas 0 layers (st_nodes st)"
    by (rule parseWorkflow_Inr)
  have ids: "map node_id (nodes vis) = map node_id (st_nodes st)" by (simp add: ns)
  have d: "distinct (map node_id (nodes vis))" using buildGraph_nodes(1) [OF st] ids by simp
  have s: "set (map node_id (nodes vis)) =
      set (map call_name (calledProcessInstances (map proc_name processes) src))"
    using buildGraph_nodes(2) [OF st] ids by simp
  have "length (filter (\<lambda>n. node_id n = p) (nodes vis)) =
      (if p \<in> set (map call_name (calledProcessInstances (map proc_name processes) src))
       then 1 else 0)" for p
    unfolding count_distinct [OF d] s by simp
  moreover have "node_name n = node_id n" if "n \<in> set (nodes vis)" for n
  proof (rule placeLayers_fresh [OF _ that [unfolded ns]])
    show "\<forall>n\<in>set (st_nodes st). node_name n = node_id n"
      using buildGraph_nodes(3) [OF st] by (auto simp: list_all_iff freshNode_def newNode_def)
        (metis VisNode.select_convs(1,2))
  qed
  ultimately show ?thesis by blast
qed

lemma thrice_graph:
  "buildGraph (map proc_name [process ''A'', process ''B'']) ''A(x) A(y) B(A.out) A(z)'' =
     Inr \<lparr>st_nodes = [newNode ''A'', newNode ''B''], st_edges = [newEdge ''A'' ''B''],
          st_G = \<lparr>G_own = [(''A'', [''B'']), (''B'', [])], G_proto = None\<rparr>,
          st_inDegree = [(''A'', Num 0), (''B'', Num 1)]\<rparr>"
  by code_simp

lemma thrice_layers:
  "layering \<lparr>G_own = [(''A'', [''B'']), (''B'', [])], G_proto = None\<rparr>
     [(''A'', Num 0), (''B'', Num 1)]
     (initialQueue [newNode ''A'', newNode ''B''] [(''A'', Num 0), (''B'', Num 1)]) =
   Inr [[''A''], [''B'']]"
  by code_simp

lemma thrice_calls:
  "map call_name (calledProcessInstances (map proc_name [process ''A'', process ''B''])
      ''A(x) A(y) B(A.out) A(z)'') = [''A'', ''A'', ''B'', ''A'']"
  by code_simp

theorem one_node_per_called_process_witness:
  "\<exists>vis. parseWorkflow initialCanvasSize (Textual ''A(x) A(y) B(A.out) A(z)'')
            [process ''A'', process ''B''] = Inr vis \<and>
         length (filter (\<lambda>c. call_name c = ''A'')
           (calledProcessInstances (map proc_name [process ''A'', process ''B''])
              ''A(x) A(y) B(A.out) A(z)'')) = 3 \<and>
         length (filter (\<lambda>n. node_id n = ''A'') (nodes vis)) = 1 \<and>
         length (filter (\<lambda>n. node_id n = ''C'') (nodes vis)) = 0"
proof -
  let ?src = "''A(x) A(y) B(A.out) A(z)''" and ?ps = "[process ''A'', process ''B'']"
  from parseWorkflow_eval [where canvas = initialCanvasSize, OF thrice_graph] thrice_layers
  obtain vis where v: "parseWorkflow initialCanvasSize (Textual ?src) ?ps = Inr vis" by simp
  have c: "length (filter (\<lambda>c. call_name c = ''A'') (calledProcessInstances (map proc_name ?ps) ?src)) = 3"
    using arg_cong [OF thrice_calls, of "\<lambda>xs. length (filter (\<lambda>n. n = ''A'') xs)"]
    by (simp add: filter_map comp_def)
  from one_node_per_called_process [OF v]
  have "length (filter (\<lambda>n. node_id n = ''A'') (nodes vis)) = 1"
    and "length (filter (\<lambda>n. node_id n = ''C'') (nodes vis)) = 0"
    unfolding thrice_calls by simp_all
  with v c show ?thesis by blast
qed

section \<open>Edge identity\<close>

text \<open>
  C6. The returned edges hold no ordered pair of source and target twice and no edge
  from a process to itself; a reference whose edge id is already there, and a reference
  of a process to itself, leave the whole state as it is.
\<close>

theorem edges_unique_and_loop_free:
  "(\<forall>vis. parseWorkflow canvas (Textual src) processes = Inr vis \<longrightarrow>
      distinct (map (\<lambda>e. (edge_source e, edge_target e)) (edges vis)) \<and>
      (\<forall>e \<in> set (edges vis). edge_source e \<noteq> edge_target e \<and>
         edge_id e = edge_source e @ ''->'' @ edge_target e)) \<and>
   (\<forall>st s t. (\<exists>e \<in> set (st_edges st). edge_id e = s @ ''->'' @ t) \<longrightarrow>
      addEdge definedProcessNames t st s = Inr st) \<and>
   (\<forall>st t. addEdge definedProcessNames t st t = Inr st)"
proof (intro conjI allI impI)
  fix vis
  assume "parseWorkflow canvas (Textual src) processes = Inr vis"
  then obtain st where st: "buildGraph (map proc_name processes) src = Inr st"
    and es: "edges vis = map (routeEdge (nodes vis)) (st_edges st)"
    by (rule parseWorkflow_Inr)
  let ?T = "call_name ` set (calledProcessInstances (map proc_name processes) src)"
  have ok: "edgesOk (set (map proc_name processes)) ?T (st_edges st)"
    by (rule buildGraph_edges [OF st])
  then have "edgesOk (set (map proc_name processes)) ?T (edges vis)"
    unfolding es edgesOk_def by (simp add: comp_def)
  then show "distinct (map (\<lambda>e. (edge_source e, edge_target e)) (edges vis))"
    and "\<forall>e \<in> set (edges vis). edge_source e \<noteq> edge_target e \<and>
         edge_id e = edge_source e @ ''->'' @ edge_target e"
    by (simp_all add: edgesOk_pairs) (simp add: edgesOk_def)
next
  fix st :: BuildState and s t
  assume "\<exists>e \<in> set (st_edges st). edge_id e = s @ ''->'' @ t"
  then show "addEdge definedProcessNames t st s = Inr st"
    unfolding addEdge_def Let_def by simp
next
  fix st :: BuildState and t
  show "addEdge definedProcessNames t st t = Inr st"
    unfolding addEdge_def by simp
qed

lemma dup_graph:
  "buildGraph (map proc_name [process ''A'', process ''B''])
      ''A(A.out) B(A.out, A.out.x) B(A.out)'' =
     Inr \<lparr>st_nodes = [newNode ''A'', newNode ''B''], st_edges = [newEdge ''A'' ''B''],
          st_G = \<lparr>G_own = [(''A'', [''B'']), (''B'', [])], G_proto = None\<rparr>,
          st_inDegree = [(''A'', Num 0), (''B'', Num 1)]\<rparr>"
  by code_simp

theorem edges_unique_and_loop_free_witness:
  "\<exists>vis. parseWorkflow initialCanvasSize (Textual ''A(A.out) B(A.out, A.out.x) B(A.out)'')
            [process ''A'', process ''B''] = Inr vis \<and>
         map (\<lambda>e. (edge_source e, edge_target e)) (edges vis) = [(''A'', ''B'')] \<and>
         distinct (map (\<lambda>e. (edge_source e, edge_target e)) (edges vis)) \<and>
         (\<forall>e \<in> set (edges vis). edge_source e \<noteq> edge_target e) \<and>
         addEdge [''A'', ''B''] ''B'' (emptyBuildState\<lparr>st_edges := [newEdge ''A'' ''B'']\<rparr>) ''A'' =
           Inr (emptyBuildState\<lparr>st_edges := [newEdge ''A'' ''B'']\<rparr>)"
proof -
  let ?src = "''A(A.out) B(A.out, A.out.x) B(A.out)''" and ?ps = "[process ''A'', process ''B'']"
  note inst = edges_unique_and_loop_free [of initialCanvasSize ?src ?ps "[''A'', ''B'']"]
  define vis where "vis =
      \<lparr>nodes = placeLayers initialCanvasSize 0 [[''A''], [''B'']] [newNode ''A'', newNode ''B''],
       edges = map (routeEdge (placeLayers initialCanvasSize 0 [[''A''], [''B'']]
              [newNode ''A'', newNode ''B''])) [newEdge ''A'' ''B'']\<rparr>"
  from parseWorkflow_eval [where canvas = initialCanvasSize, OF dup_graph] thrice_layers
  have v: "parseWorkflow initialCanvasSize (Textual ?src) ?ps = Inr vis"
    unfolding vis_def by simp
  have p: "map (\<lambda>e. (edge_source e, edge_target e)) (edges vis) = [(''A'', ''B'')]"
    unfolding vis_def by (simp add: newEdge_def)
  from inst [THEN conjunct1, rule_format, OF v]
  have d: "distinct (map (\<lambda>e. (edge_source e, edge_target e)) (edges vis))"
    and l: "\<forall>e \<in> set (edges vis). edge_source e \<noteq> edge_target e" by simp_all
  have "\<exists>e \<in> set (st_edges (emptyBuildState\<lparr>st_edges := [newEdge ''A'' ''B'']\<rparr>)).
      edge_id e = ''A'' @ ''->'' @ ''B''" by (simp add: newEdge_def)
  from inst [THEN conjunct2, THEN conjunct1, rule_format, OF this]
  have n: "addEdge [''A'', ''B''] ''B'' (emptyBuildState\<lparr>st_edges := [newEdge ''A'' ''B'']\<rparr>) ''A'' =
           Inr (emptyBuildState\<lparr>st_edges := [newEdge ''A'' ''B'']\<rparr>)" .
  show ?thesis
    by (rule exI [of _ vis]) (intro conjI v p d l n)
qed

section \<open>Undeclared names\<close>

lemma no_calls_empty:
  assumes "calledProcessInstances (map proc_name processes) src = []"
  shows "parseWorkflow canvas (Textual src) processes = Inr \<lparr>nodes = [], edges = []\<rparr>"
proof -
  have "buildGraph (map proc_name processes) src = Inr emptyBuildState"
    using assms by (simp add: buildGraph_def)
  from parseWorkflow_eval [OF this, of "[]" canvas] show ?thesis
    by (simp add: emptyBuildState_def initialQueue_def layering.simps)
qed

text \<open>
  C9. Every recognized call, every returned node and both ends of every returned edge
  carry a declared process name; when no call is recognized, \<^verbatim>\<open>parseWorkflow\<close> returns
  no nodes and no edges.
\<close>

theorem undeclared_names_ignored:
  "(\<forall>c \<in> set (calledProcessInstances (map proc_name processes) src).
      call_name c \<in> set (map proc_name processes)) \<and>
   (\<forall>vis. parseWorkflow canvas (Textual src) processes = Inr vis \<longrightarrow>
      (\<forall>n \<in> set (nodes vis). node_id n \<in> set (map proc_name processes)) \<and>
      (\<forall>e \<in> set (edges vis). edge_source e \<in> set (map proc_name processes) \<and>
         edge_target e \<in> set (map proc_name processes))) \<and>
   (calledProcessInstances (map proc_name processes) src = [] \<longrightarrow>
      parseWorkflow canvas (Textual src) processes = Inr \<lparr>nodes = [], edges = []\<rparr>)"
proof (intro conjI allI impI ballI)
  fix c assume "c \<in> set (calledProcessInstances (map proc_name processes) src)"
  then show "call_name c \<in> set (map proc_name processes)" by (rule called_names_declared)
next
  fix vis n
  assume v: "parseWorkflow canvas (Textual src) processes = Inr vis" and n: "n \<in> set (nodes vis)"
  from v obtain st layers where st: "buildGraph (map proc_name processes) src = Inr st"
    and ns: "nodes vis = placeLayers canvas 0 layers (st_nodes st)"
    by (rule parseWorkflow_Inr)
  from n have "node_id n \<in> set (map node_id (nodes vis))" by simp
  also have "\<dots> = set (map call_name (calledProcessInstances (map proc_name processes) src))"
    unfolding ns placeLayers_ids by (rule buildGraph_nodes(2) [OF st])
  finally show "node_id n \<in> set (map proc_name processes)"
    by (auto dest: called_names_declared)
next
  fix vis e
  assume v: "parseWorkflow canvas (Textual src) processes = Inr vis" and e: "e \<in> set (edges vis)"
  from v obtain st where st: "buildGraph (map proc_name processes) src = Inr st"
    and es: "edges vis = map (routeEdge (nodes vis)) (st_edges st)"
    by (rule parseWorkflow_Inr)
  from e es obtain e0 where e0: "e0 \<in> set (st_edges st)" and "e = routeEdge (nodes vis) e0" by auto
  then have same: "edge_source e = edge_source e0" "edge_target e = edge_target e0" by simp_all
  from buildGraph_edges [OF st] e0
  have "edge_source e0 \<in> set (map proc_name processes)"
    and "edge_target e0 \<in> call_name ` set (calledProcessInstances (map proc_name processes) src)"
    by (auto simp: edgesOk_def)
  then show "edge_source e \<in> set (map proc_name processes)"
    and "edge_target e \<in> set (map proc_name processes)"
    unfolding same by (auto dest: called_names_declared)
next
  assume "calledProcessInstances (map proc_name processes) src = []"
  then show "parseWorkflow canvas (Textual src) processes = Inr \<lparr>nodes = [], edges = []\<rparr>"
    by (rule no_calls_empty)
qed

lemma stray_graph:
  "buildGraph (map proc_name [process ''A'']) ''X(1) A(Y.out, A.out)'' =
     Inr \<lparr>st_nodes = [newNode ''A''], st_edges = [],
          st_G = \<lparr>G_own = [(''A'', [])], G_proto = None\<rparr>,
          st_inDegree = [(''A'', Num 0)]\<rparr>"
  by code_simp

lemma stray_layers:
  "layering \<lparr>G_own = [(''A'', [])], G_proto = None\<rparr> [(''A'', Num 0)]
     (initialQueue [newNode ''A''] [(''A'', Num 0)]) = Inr [[''A'']]"
  by code_simp

lemma stray_calls: "calledProcessInstances (map proc_name [process ''A'']) ''X(Y.out)'' = []"
  by code_simp

theorem undeclared_names_ignored_witness:
  "(\<exists>vis. parseWorkflow initialCanvasSize (Textual ''X(1) A(Y.out, A.out)'') [process ''A''] = Inr vis \<and>
      map node_id (nodes vis) = [''A''] \<and> edges vis = [] \<and>
      (\<forall>n \<in> set (nodes vis). node_id n \<in> set (map proc_name [process ''A'']))) \<and>
   calledProcessInstances (map proc_name [process ''A'']) ''X(Y.out)'' = [] \<and>
   parseWorkflow initialCanvasSize (Textual ''X(Y.out)'') [process ''A''] = Inr \<lparr>nodes = [], edges = []\<rparr>"
proof -
  define vis where "vis =
      \<lparr>nodes = placeLayers initialCanvasSize 0 [[''A'']] [newNode ''A''],
       edges = map (routeEdge (placeLayers initialCanvasSize 0 [[''A'']] [newNode ''A''])) []\<rparr>"
  from parseWorkflow_eval [where canvas = initialCanvasSize, OF stray_graph] stray_layers
  have v: "parseWorkflow initialCanvasSize (Textual ''X(1) A(Y.out, A.out)'') [process ''A''] = Inr vis"
    unfolding vis_def by simp
  have i: "map node_id (nodes vis) = [''A'']" and e: "edges vis = []"
    unfolding vis_def by (simp_all add: newNode_def del: placeLayers.simps)
  from undeclared_names_ignored [of "[process ''A'']" "''X(1) A(Y.out, A.out)''" initialCanvasSize,
      THEN conjunct2, THEN conjunct1, rule_format, OF v]
  have d: "\<forall>n \<in> set (nodes vis). node_id n \<in> set (map proc_name [process ''A''])" by simp
  from undeclared_names_ignored [of "[process ''A'']" "''X(Y.out)''" initialCanvasSize,
      THEN conjunct2, THEN conjunct2, rule_format, OF stray_calls]
  have z: "parseWorkflow initialCanvasSize (Textual ''X(Y.out)'') [process ''A''] =
      Inr \<lparr>nodes = [], edges = []\<rparr>" .
  have "\<exists>vis. parseWorkflow initialCanvasSize (Textual ''X(1) A(Y.out, A.out)'') [process ''A''] = Inr vis \<and>
      map node_id (nodes vis) = [''A''] \<and> edges vis = [] \<and>
      (\<forall>n \<in> set (nodes vis). node_id n \<in> set (map proc_name [process ''A'']))"
    by (rule exI [of _ vis]) (intro conjI v i e d)
  then show ?thesis by (intro conjI stray_calls z)
qed

section \<open>A cycle of two processes\<close>

lemma cycle_graph:
  "buildGraph (map proc_name [process ''A'', process ''B'']) ''A(B.out) B(A.out)'' =
     Inr \<lparr>st_nodes = [newNode ''A'', newNode ''B''],
          st_edges = [newEdge ''B'' ''A'', newEdge ''A'' ''B''],
          st_G = \<lparr>G_own = [(''A'', [''B'']), (''B'', [''A''])], G_proto = None\<rparr>,
          st_inDegree = [(''A'', Num 1), (''B'', Num 1)]\<rparr>"
  by code_simp

lemma cycle_layers:
  "layering \<lparr>G_own = [(''A'', [''B'']), (''B'', [''A''])], G_proto = None\<rparr>
     [(''A'', Num 1), (''B'', Num 1)]
     (initialQueue [newNode ''A'', newNode ''B''] [(''A'', Num 1), (''B'', Num 1)]) = Inr []"
  by code_simp

lemma cycle_result:
  "parseWorkflow canvas (Textual ''A(B.out) B(A.out)'') [process ''A'', process ''B''] =
     Inr \<lparr>nodes = [newNode ''A'', newNode ''B''],
          edges = [\<lparr>edge_id = ''B->A'', edge_source = ''B'', edge_target = ''A'',
                     edge_startX = 90, edge_startY = 60, edge_endX = 90, edge_endY = 0,
                     edge_controlX = 105, edge_controlY = 30\<rparr>,
                   \<lparr>edge_id = ''A->B'', edge_source = ''A'', edge_target = ''B'',
                     edge_startX = 90, edge_startY = 60, edge_endX = 90, edge_endY = 0,
                     edge_controlX = 105, edge_controlY = 30\<rparr>]\<rparr>"
proof -
  from parseWorkflow_eval [where canvas = canvas, OF cycle_graph] cycle_layers
  have "parseWorkflow canvas (Textual ''A(B.out) B(A.out)'') [process ''A'', process ''B''] =
      Inr \<lparr>nodes = [newNode ''A'', newNode ''B''],
           edges = map (routeEdge [newNode ''A'', newNode ''B''])
             [newEdge ''B'' ''A'', newEdge ''A'' ''B'']\<rparr>"
    by simp
  also have "map (routeEdge [newNode ''A'', newNode ''B'']) [newEdge ''B'' ''A'', newEdge ''A'' ''B''] =
      [\<lparr>edge_id = ''B->A'', edge_source = ''B'', edge_target = ''A'',
                     edge_startX = 90, edge_startY = 60, edge_endX = 90, edge_endY = 0,
                     edge_controlX = 105, edge_controlY = 30\<rparr>,
                   \<lparr>edge_id = ''A->B'', edge_source = ''A'', edge_target = ''B'',
                     edge_startX = 90, edge_startY = 60, edge_endX = 90, edge_endY = 0,
                     edge_controlX = 105, edge_controlY = 30\<rparr>]"
    by (simp add: routeEdge_def layout_eval sqrt_3600)
  finally show ?thesis .
qed

text \<open>
  C1, as the specification states it, fails: for the calls \<^verbatim>\<open>A(B.out) B(A.out)\<close> the
  data handed to the renderer holds the nodes A and B.
\<close>

theorem cycle_nodes_are_returned:
  "map node_id (nodes (visData (runEffect initialCanvasSize (Textual ''A(B.out) B(A.out)'')
      [process ''A'', process ''B'']))) = [''A'', ''B'']"
  by (simp add: runEffect_def cycle_result newNode_def)

text \<open>
  C1, amended. For the calls \<^verbatim>\<open>A(B.out) B(A.out)\<close> with A and B declared, nothing is
  thrown and no layer is produced; both nodes stay in the returned nodes at their
  first coordinates (0, 0), the edges B->A and A->B are returned with their curves, and
  the effect hook hands both nodes to the renderer.
\<close>

theorem cycle_keeps_both_nodes_unplaced:
  "workflowLayers ''A(B.out) B(A.out)'' [process ''A'', process ''B''] = Inr [] \<and>
   parseWorkflow canvas (Textual ''A(B.out) B(A.out)'') [process ''A'', process ''B''] =
     Inr \<lparr>nodes = [\<lparr>node_id = ''A'', node_name = ''A'', node_x = 0, node_y = 0,
                      node_width = 180, node_height = 60\<rparr>,
                    \<lparr>node_id = ''B'', node_name = ''B'', node_x = 0, node_y = 0,
                      node_width = 180, node_height = 60\<rparr>],
          edges = [\<lparr>edge_id = ''B->A'', edge_source = ''B'', edge_target = ''A'',
                     edge_startX = 90, edge_startY = 60, edge_endX = 90, edge_endY = 0,
                     edge_controlX = 105, edge_controlY = 30\<rparr>,
                   \<lparr>edge_id = ''A->B'', edge_source = ''A'', edge_target = ''B'',
                     edge_startX = 90, edge_startY = 60, edge_endX = 90, edge_endY = 0,
                     edge_controlX = 105, edge_controlY = 30\<rparr>]\<rparr> \<and>
   errorVisualizing (runEffect canvas (Textual ''A(B.out) B(A.out)'') [process ''A'', process ''B'']) = None \<and>
   map node_id (nodes (visData (runEffect canvas (Textual ''A(B.out) B(A.out)'')
      [process ''A'', process ''B'']))) = [''A'', ''B'']"
proof -
  have "workflowLayers ''A(B.out) B(A.out)'' [process ''A'', process ''B''] = Inr []"
    unfolding workflowLayers_def cycle_graph using cycle_layers by simp
  then show ?thesis
    by (simp add: runEffect_def cycle_result newNode_def NODE_WIDTH_def NODE_HEIGHT_def)
qed

section \<open>A chain of calls\<close>

lemma chain2_graph:
  "buildGraph (map proc_name [process ''A'', process ''B'']) ''A(...) B(A.out)'' =
     Inr \<lparr>st_nodes = [newNode ''A'', newNode ''B''], st_edges = [newEdge ''A'' ''B''],
          st_G = \<lparr>G_own = [(''A'', [''B'']), (''B'', [])], G_proto = None\<rparr>,
          st_inDegree = [(''A'', Num 0), (''B'', Num 1)]\<rparr>"
  by code_simp

lemma chain2_workflowLayers:
  "workflowLayers ''A(...) B(A.out)'' [process ''A'', process ''B''] = Inr [[''A''], [''B'']]"
  unfolding workflowLayers_def chain2_graph using thrice_layers by simp

lemma chain3_graph:
  "buildGraph (map proc_name [process ''A'', process ''B'', process ''C''])
      ''A(...) B(A.out) C(A.out, B.out)'' =
     Inr \<lparr>st_nodes = [newNode ''A'', newNode ''B'', newNode ''C''],
          st_edges = [newEdge ''A'' ''B'', newEdge ''A'' ''C'', newEdge ''B'' ''C''],
          st_G = \<lparr>G_own = [(''A'', [''B'', ''C'']), (''B'', [''C'']), (''C'', [])], G_proto = None\<rparr>,
          st_inDegree = [(''A'', Num 0), (''B'', Num 1), (''C'', Num 2)]\<rparr>"
  by code_simp

lemma chain3_layers:
  "layering \<lparr>G_own = [(''A'', [''B'', ''C'']), (''B'', [''C'']), (''C'', [])], G_proto = None\<rparr>
     [(''A'', Num 0), (''B'', Num 1), (''C'', Num 2)]
     (initialQueue [newNode ''A'', newNode ''B'', newNode ''C'']
        [(''A'', Num 0), (''B'', Num 1), (''C'', Num 2)]) = Inr [[''A''], [''B''], [''C'']]"
  by code_simp

text \<open>
  C4. For the calls \<^verbatim>\<open>A(...) B(A.out)\<close> the nodes are A and B, the only edge is A->B,
  and B lies in layer 1 below A in layer 0. For \<^verbatim>\<open>A(...) B(A.out) C(A.out, B.out)\<close> the
  layers are A, B, C in this order, so C lies in a layer after those of A and B.
\<close>

theorem chain_layers_increase:
  "workflowLayers ''A(...) B(A.out)'' [process ''A'', process ''B''] = Inr [[''A''], [''B'']] \<and>
   parseWorkflow canvas (Textual ''A(...) B(A.out)'') [process ''A'', process ''B''] =
     Inr \<lparr>nodes = [\<lparr>node_id = ''A'', node_name = ''A'', node_x = layerStartX canvas [''A''],
                      node_y = 100, node_width = 180, node_height = 60\<rparr>,
                    \<lparr>node_id = ''B'', node_name = ''B'', node_x = layerStartX canvas [''B''],
                      node_y = 260, node_width = 180, node_height = 60\<rparr>],
          edges = [\<lparr>edge_id = ''A->B'', edge_source = ''A'', edge_target = ''B'',
                     edge_startX = layerStartX canvas [''A''] + 90, edge_startY = 160,
                     edge_endX = layerStartX canvas [''B''] + 90, edge_endY = 260,
                     edge_controlX = layerStartX canvas [''A''] + 120, edge_controlY = 220\<rparr>]\<rparr> \<and>
   workflowLayers ''A(...) B(A.out) C(A.out, B.out)'' [process ''A'', process ''B'', process ''C''] =
     Inr [[''A''], [''B''], [''C'']] \<and>
   (\<exists>vis. parseWorkflow canvas (Textual ''A(...) B(A.out) C(A.out, B.out)'')
             [process ''A'', process ''B'', process ''C''] = Inr vis \<and>
          map (\<lambda>n. (node_id n, node_y n)) (nodes vis) = [(''A'', 100), (''B'', 260), (''C'', 420)] \<and>
          map edge_id (edges vis) = [''A->B'', ''A->C'', ''B->C''])"
proof -
  have l2: "workflowLayers ''A(...) B(A.out)'' [process ''A'', process ''B''] = Inr [[''A''], [''B'']]"
    unfolding workflowLayers_def chain2_graph using thrice_layers by simp
  have l3: "workflowLayers ''A(...) B(A.out) C(A.out, B.out)''
      [process ''A'', process ''B'', process ''C''] = Inr [[''A''], [''B''], [''C'']]"
    unfolding workflowLayers_def chain3_graph using chain3_layers by simp
  from parseWorkflow_eval [where canvas = canvas, OF chain2_graph] thrice_layers
  have "parseWorkflow canvas (Textual ''A(...) B(A.out)'') [process ''A'', process ''B''] =
      Inr \<lparr>nodes = placeLayers canvas 0 [[''A''], [''B'']] [newNode ''A'', newNode ''B''],
           edges = map (routeEdge (placeLayers canvas 0 [[''A''], [''B'']] [newNode ''A'', newNode ''B'']))
             [newEdge ''A'' ''B'']\<rparr>"
    by simp
  also have "placeLayers canvas 0 [[''A''], [''B'']] [newNode ''A'', newNode ''B''] =
      [\<lparr>node_id = ''A'', node_name = ''A'', node_x = layerStartX canvas [''A''],
                      node_y = 100, node_width = 180, node_height = 60\<rparr>,
                    \<lparr>node_id = ''B'', node_name = ''B'', node_x = layerStartX canvas [''B''],
                      node_y = 260, node_width = 180, node_height = 60\<rparr>]"
    by (simp add: layout_eval)
  also have "map (routeEdge [\<lparr>node_id = ''A'', node_name = ''A'', node_x = layerStartX canvas [''A''],
                      node_y = 100, node_width = 180, node_height = 60\<rparr>,
                    \<lparr>node_id = ''B'', node_name = ''B'', node_x = layerStartX canvas [''B''],
                      node_y = 260, node_width = 180, node_height = 60\<rparr>]) [newEdge ''A'' ''B''] =
      [\<lparr>edge_id = ''A->B'', edge_source = ''A'', edge_target = ''B'',
                     edge_startX = layerStartX canvas [''A''] + 90, edge_startY = 160,
                     edge_endX = layerStartX canvas [''B''] + 90, edge_endY = 260,
                     edge_controlX = layerStartX canvas [''A''] + 120, edge_controlY = 220\<rparr>]"
    by (simp add: routeEdge_def layout_eval)
  finally have p2: "parseWorkflow canvas (Textual ''A(...) B(A.out)'') [process ''A'', process ''B''] =
     Inr \<lparr>nodes = [\<lparr>node_id = ''A'', node_name = ''A'', node_x = layerStartX canvas [''A''],
                      node_y = 100, node_width = 180, node_height = 60\<rparr>,
                    \<lparr>node_id = ''B'', node_name = ''B'', node_x = layerStartX canvas [''B''],
                      node_y = 260, node_width = 180, node_height = 60\<rparr>],
          edges = [\<lparr>edge_id = ''A->B'', edge_source = ''A'', edge_target = ''B'',
                     edge_startX = layerStartX canvas [''A''] + 90, edge_startY = 160,
                     edge_endX = layerStartX canvas [''B''] + 90, edge_endY = 260,
                     edge_controlX = layerStartX canvas [''A''] + 120, edge_controlY = 220\<rparr>]\<rparr>" .
  define vis where "vis =
      \<lparr>nodes = placeLayers canvas 0 [[''A''], [''B''], [''C'']] [newNode ''A'', newNode ''B'', newNode ''C''],
       edges = map (routeEdge (placeLayers canvas 0 [[''A''], [''B''], [''C'']]
              [newNode ''A'', newNode ''B'', newNode ''C'']))
           [newEdge ''A'' ''B'', newEdge ''A'' ''C'', newEdge ''B'' ''C'']\<rparr>"
  from parseWorkflow_eval [where canvas = canvas, OF chain3_graph] chain3_layers
  have v: "parseWorkflow canvas (Textual ''A(...) B(A.out) C(A.out, B.out)'')
             [process ''A'', process ''B'', process ''C''] = Inr vis"
    unfolding vis_def by simp
  have n: "map (\<lambda>n. (node_id n, node_y n)) (nodes vis) = [(''A'', 100), (''B'', 260), (''C'', 420)]"
    unfolding vis_def by (simp add: layout_eval)
  have e: "map edge_id (edges vis) = [''A->B'', ''A->C'', ''B->C'']"
    unfolding vis_def by (simp add: newEdge_def del: placeLayers.simps)
  have "\<exists>vis. parseWorkflow canvas (Textual ''A(...) B(A.out) C(A.out, B.out)'')
             [process ''A'', process ''B'', process ''C''] = Inr vis \<and>
          map (\<lambda>n. (node_id n, node_y n)) (nodes vis) = [(''A'', 100), (''B'', 260), (''C'', 420)] \<and>
          map edge_id (edges vis) = [''A->B'', ''A->C'', ''B->C'']"
    by (rule exI [of _ vis]) (intro conjI v n e)
  with l2 l3 p2 show ?thesis by (intro conjI)
qed

section \<open>Coordinates of the layers\<close>

text \<open>
  C7, as the specification states it, fails: three nodes in one layer under the canvas
  width 800 have the centred position 50, which is not negative, and yet the leftmost
  node is put at the margin 80.
\<close>

theorem margin_applies_to_nonnegative_centre:
  "workflowLayers ''A() B() C()'' [process ''A'', process ''B'', process ''C''] = Inr [[''A'', ''B'', ''C'']] \<and>
   (canvas_width initialCanvasSize - (3 * NODE_WIDTH + (3 - 1) * X_SPACING)) / 2 = 50 \<and>
   map node_x (nodes (visData (runEffect initialCanvasSize (Textual ''A() B() C()'')
      [process ''A'', process ''B'', process ''C'']))) = [80, 340, 600]"
proof -
  have "workflowLayers ''A() B() C()'' [process ''A'', process ''B'', process ''C''] = Inr [[''A'', ''B'', ''C'']]"
    unfolding workflowLayers_def three_graph using three_layers by simp
  then show ?thesis
    unfolding three_first_run by (simp add: initialCanvasSize_def NODE_WIDTH_def X_SPACING_def)
qed

text \<open>
  C7, amended. No node is in two layers. The node at position \<open>j\<close> of layer \<open>i\<close> has
  the abscissa \<open>start + j * (NODE_WIDTH + X_SPACING)\<close>, where \<open>start\<close> is the position
  that centres the layer under the canvas width, or \<open>X_SPACING\<close> whenever that position
  is below \<open>X_SPACING\<close> (not only when it is negative), and the ordinate
  \<open>i * (NODE_HEIGHT + Y_SPACING) + Y_SPACING\<close>.
\<close>

theorem layer_coordinates:
  assumes "parseWorkflow canvas (Textual src) processes = Inr vis"
    and "workflowLayers src processes = Inr layers"
    and "i < length layers" and "j < length (layers ! i)"
  shows "distinct (concat layers) \<and>
    (\<exists>n. nodeMap_get (nodes vis) (layers ! i ! j) = Some n \<and>
       node_x n =
         (let layerWidth = real (length (layers ! i)) * NODE_WIDTH +
                (real (length (layers ! i)) - 1) * X_SPACING;
              centred = (canvas_width canvas - layerWidth) / 2
          in (if centred < X_SPACING then X_SPACING else centred) +
               real j * (NODE_WIDTH + X_SPACING)) \<and>
       node_y n = real i * (NODE_HEIGHT + Y_SPACING) + Y_SPACING)"
proof -
  from assms(1) obtain st ls where st: "buildGraph (map proc_name processes) src = Inr st"
    and ls: "layering (st_G st) (st_inDegree st) (initialQueue (st_nodes st) (st_inDegree st)) = Inr ls"
    and ns: "nodes vis = placeLayers canvas 0 ls (st_nodes st)"
    by (rule parseWorkflow_Inr)
  from assms(2) st ls have eq: "ls = layers" by (simp add: workflowLayers_def)
  note l = layers_are_nodes [OF st ls [unfolded eq]]
  from placeLayers_at [OF l assms(3,4), of canvas 0]
  have "placedAt (nodes vis) (layers ! i ! j)
     (layerStartX canvas (layers ! i) + real j * (NODE_WIDTH + X_SPACING))
     (real i * (NODE_HEIGHT + Y_SPACING) + Y_SPACING)"
    unfolding ns eq by simp
  with l(1) show ?thesis by (simp add: placedAt_def layerStartX_def Let_def)
qed

lemma four_graph:
  "buildGraph (map proc_name [process ''A'', process ''B'', process ''C'', process ''D''])
      ''A() B() C() D(A.out)'' =
     Inr \<lparr>st_nodes = [newNode ''A'', newNode ''B'', newNode ''C'', newNode ''D''],
          st_edges = [newEdge ''A'' ''D''],
          st_G = \<lparr>G_own = [(''A'', [''D'']), (''B'', []), (''C'', []), (''D'', [])], G_proto = None\<rparr>,
          st_inDegree = [(''A'', Num 0), (''B'', Num 0), (''C'', Num 0), (''D'', Num 1)]\<rparr>"
  by code_simp

lemma four_layers:
  "layering \<lparr>G_own = [(''A'', [''D'']), (''B'', []), (''C'', []), (''D'', [])], G_proto = None\<rparr>
     [(''A'', Num 0), (''B'', Num 0), (''C'', Num 0), (''D'', Num 1)]
     (initialQueue [newNode ''A'', newNode ''B'', newNode ''C'', newNode ''D'']
        [(''A'', Num 0), (''B'', Num 0), (''C'', Num 0), (''D'', Num 1)]) =
   Inr [[''A'', ''B'', ''C''], [''D'']]"
  by code_simp

theorem layer_coordinates_witness:
  "\<exists>vis. parseWorkflow initialCanvasSize (Textual ''A() B() C() D(A.out)'')
            [process ''A'', process ''B'', process ''C'', process ''D''] = Inr vis \<and>
         workflowLayers ''A() B() C() D(A.out)''
            [process ''A'', process ''B'', process ''C'', process ''D''] =
           Inr [[''A'', ''B'', ''C''], [''D'']] \<and>
         (\<exists>n. nodeMap_get (nodes vis) ''C'' = Some n \<and> node_x n = 600 \<and> node_y n = 100) \<and>
         (\<exists>n. nodeMap_get (nodes vis) ''D'' = Some n \<and> node_x n = 310 \<and> node_y n = 260)"
proof -
  let ?src = "''A() B() C() D(A.out)''"
  let ?ps = "[process ''A'', process ''B'', process ''C'', process ''D'']"
  let ?layers = "[[''A'', ''B'', ''C''], [''D'']]"
  from parseWorkflow_eval [where canvas = initialCanvasSize, OF four_graph] four_layers
  obtain vis where v: "parseWorkflow initialCanvasSize (Textual ?src) ?ps = Inr vis" by simp
  have l: "workflowLayers ?src ?ps = Inr ?layers"
    unfolding workflowLayers_def four_graph using four_layers by simp
  have c: "\<exists>n. nodeMap_get (nodes vis) ''C'' = Some n \<and> node_x n = 600 \<and> node_y n = 100"
    using layer_coordinates [OF v l, of 0 2]
    by (simp add: initialCanvasSize_def NODE_WIDTH_def NODE_HEIGHT_def X_SPACING_def Y_SPACING_def)
  have d: "\<exists>n. nodeMap_get (nodes vis) ''D'' = Some n \<and> node_x n = 310 \<and> node_y n = 260"
    using layer_coordinates [OF v l, of 1 0]
    by (simp add: initialCanvasSize_def NODE_WIDTH_def NODE_HEIGHT_def X_SPACING_def Y_SPACING_def)
  show ?thesis by (rule exI [of _ vis]) (intro conjI v l c d)
qed

section \<open>Two runs in a row\<close>

text \<open>
  C2, as the specification states it, fails: the effect hook stores the width of the
  first layout in \<^verbatim>\<open>canvasSizeForLayout\<close>, and the second run centres under that
  width. Three independent calls are laid out at 80, 340, 600 and then at 120, 380, 640.
\<close>

theorem second_run_moves_nodes:
  "map node_x (nodes (visData (runEffect initialCanvasSize (Textual ''A() B() C()'')
      [process ''A'', process ''B'', process ''C'']))) = [80, 340, 600] \<and>
   map node_x (nodes (visData (runEffect
      (canvasSizeForLayout (runEffect initialCanvasSize (Textual ''A() B() C()'')
         [process ''A'', process ''B'', process ''C'']))
      (Textual ''A() B() C()'') [process ''A'', process ''B'', process ''C'']))) = [120, 380, 640]"
  unfolding three_first_run
  by (simp add: runEffect_def three_result layerStartX_def NODE_WIDTH_def X_SPACING_def)

lemma placeLayers_width:
  "canvas_width c = canvas_width c' \<Longrightarrow> placeLayers c i layers ns = placeLayers c' i layers ns"
  by (induction layers arbitrary: i ns) (simp_all add: placeLayer_def layerStartX_def)

lemma parseWorkflow_width:
  "canvas_width c = canvas_width c' \<Longrightarrow> parseWorkflow c w ps = parseWorkflow c' w ps"
  by (simp add: parseWorkflow_def placeLayers_width [of c c'] cong: workflow_input.case_cong sum.case_cong)



lemma placeNode_narrow:
  assumes "narrow ns" "x \<le> 460"
  shows "narrow (fst (placeNode y (ns, x) k))"
  using assms unfolding placeNode_fst by (auto simp: narrow_def)

lemma foldl_placeNode_narrow:
  "narrow ns \<Longrightarrow> l = [] \<or> x + (real (length l) - 1) * (NODE_WIDTH + X_SPACING) \<le> 460 \<Longrightarrow>
   narrow (fst (foldl (placeNode y) (ns, x) l))"
proof (induction l arbitrary: ns x)
  case Nil
  then show ?case by simp
next
  case (Cons k l)
  obtain ns' x' where p: "placeNode y (ns, x) k = (ns', x')" by (cases "placeNode y (ns, x) k")
  have gap: "0 \<le> real (length l) * (NODE_WIDTH + X_SPACING)"
    by (simp add: NODE_WIDTH_def X_SPACING_def)
  from Cons.prems(2) have b: "x + real (length l) * (NODE_WIDTH + X_SPACING) \<le> 460" by simp
  with gap have x: "x \<le> 460" by linarith
  have n': "narrow ns'" using placeNode_narrow [OF Cons.prems(1) x, of y k] p by simp
  have "x' \<le> x + NODE_WIDTH + X_SPACING"
    using placeNode_snd [of y ns x k] p by (simp add: NODE_WIDTH_def X_SPACING_def)
  with b have "l = [] \<or> x' + (real (length l) - 1) * (NODE_WIDTH + X_SPACING) \<le> 460"
    by (simp add: algebra_simps)
  from Cons.IH [OF n' this] p show ?case by simp
qed

lemma placeLayer_narrow:
  assumes "narrow ns" "length l \<le> 2"
  shows "narrow (placeLayer initialCanvasSize ns i l)"
proof -
  have "l = [] \<or> layerStartX initialCanvasSize l + (real (length l) - 1) * (NODE_WIDTH + X_SPACING) \<le> 460"
  proof -
    from assms(2) consider "length l = 0" | "length l = 1" | "length l = 2" by linarith
    then show ?thesis
      by cases (simp_all add: layerStartX_def initialCanvasSize_def NODE_WIDTH_def X_SPACING_def)
  qed
  with assms(1) show ?thesis unfolding placeLayer_def by (rule foldl_placeNode_narrow)
qed

lemma placeLayers_narrow:
  "narrow ns \<Longrightarrow> \<forall>l \<in> set layers. length l \<le> 2 \<Longrightarrow>
   narrow (placeLayers initialCanvasSize i layers ns)"
  by (induction layers arbitrary: i ns) (simp_all add: placeLayer_narrow)

lemma maxRight_narrow:
  "narrow ns \<Longrightarrow> m \<le> 640 \<Longrightarrow>
   foldl (\<lambda>maxX n. if node_x n + node_width n > maxX then node_x n + node_width n else maxX) m ns \<le> 640"
  by (induction ns arbitrary: m) (auto simp: narrow_def NODE_WIDTH_def)

lemma fresh_narrow: "list_all freshNode ns \<Longrightarrow> narrow ns"
  by (auto simp: narrow_def list_all_iff freshNode_def newNode_def)
    (metis VisNode.select_convs(5), metis VisNode.select_convs(3) order_refl zero_le_numeral)

text \<open>
  C2, amended. The result of \<^verbatim>\<open>parseWorkflow\<close> is a function of the workflow source, the
  process list and the canvas width left by the run before. Starting from the width
  800 of a fresh module, when no layer has more than two nodes the first run leaves
  the width at 800 and the second run leaves the same data, error and canvas size as
  the first.
\<close>

theorem rerun_keeps_narrow_layouts:
  assumes "\<And>layers. workflowLayers src processes = Inr layers \<Longrightarrow> \<forall>layer \<in> set layers. length layer \<le> 2"
  shows "canvas_width (canvasSizeForLayout (runEffect initialCanvasSize (Textual src) processes)) = 800 \<and>
    runEffect (canvasSizeForLayout (runEffect initialCanvasSize (Textual src) processes))
        (Textual src) processes =
      runEffect initialCanvasSize (Textual src) processes"
proof -
  let ?first = "runEffect initialCanvasSize (Textual src) processes"
  have w: "canvas_width (canvasSizeForLayout ?first) = 800"
  proof (cases "parseWorkflow initialCanvasSize (Textual src) processes")
    case (Inl err)
    then show ?thesis by (simp add: runEffect_def initialCanvasSize_def)
  next
    case (Inr vis)
    then obtain st layers where st: "buildGraph (map proc_name processes) src = Inr st"
      and ls: "layering (st_G st) (st_inDegree st) (initialQueue (st_nodes st) (st_inDegree st)) = Inr layers"
      and ns: "nodes vis = placeLayers initialCanvasSize 0 layers (st_nodes st)"
      by (rule parseWorkflow_Inr)
    from st ls have "workflowLayers src processes = Inr layers" by (simp add: workflowLayers_def)
    then have "\<forall>layer \<in> set layers. length layer \<le> 2" by (rule assms)
    with fresh_narrow [OF buildGraph_nodes(3) [OF st]] have "narrow (nodes vis)"
      unfolding ns by (rule placeLayers_narrow)
    then have "maxRight (nodes vis) \<le> 640" unfolding maxRight_def by (rule maxRight_narrow) simp
    with Inr show ?thesis by (simp add: runEffect_def X_SPACING_def)
  qed
  have "parseWorkflow (canvasSizeForLayout ?first) (Textual src) processes =
      parseWorkflow initialCanvasSize (Textual src) processes"
    by (rule parseWorkflow_width) (simp only: w, simp add: initialCanvasSize_def)
  then have "runEffect (canvasSizeForLayout ?first) (Textual src) processes = ?first"
    by (cases "parseWorkflow initialCanvasSize (Textual src) processes")
      (simp_all add: runEffect_def)
  with w show ?thesis by simp
qed

theorem rerun_keeps_narrow_layouts_witness:
  "length [''A''] \<le> 2 \<and> length [''B''] \<le> 2 \<and>
   workflowLayers ''A(...) B(A.out)'' [process ''A'', process ''B''] = Inr [[''A''], [''B'']] \<and>
   runEffect (canvasSizeForLayout (runEffect initialCanvasSize (Textual ''A(...) B(A.out)'')
        [process ''A'', process ''B''])) (Textual ''A(...) B(A.out)'') [process ''A'', process ''B''] =
     runEffect initialCanvasSize (Textual ''A(...) B(A.out)'') [process ''A'', process ''B'']"
proof -
  have h: "\<forall>layer \<in> set layers. length layer \<le> 2"
    if "workflowLayers ''A(...) B(A.out)'' [process ''A'', process ''B''] = Inr layers" for layers
    using that unfolding chain2_workflowLayers by auto
  from rerun_keeps_narrow_layouts [of "''A(...) B(A.out)''" "[process ''A'', process ''B'']", OF h]
  show ?thesis using chain2_workflowLayers by simp
qed

section \<open>A source process that is declared and never called\<close>

text \<open>
  With an ordinary name: for the processes P, T and U and the text \<^verbatim>\<open>T(P.out) U(T.out)\<close>
  the edge P->T is returned with all six coordinates 0 although no node P exists, the
  in-degree of T stays 1, no layer is produced, and T and U keep the coordinates (0, 0).
\<close>

lemma dangling_graph:
  "buildGraph (map proc_name [process ''P'', process ''T'', process ''U'']) ''T(P.out) U(T.out)'' =
     Inr \<lparr>st_nodes = [newNode ''T'', newNode ''U''],
          st_edges = [newEdge ''P'' ''T'', newEdge ''T'' ''U''],
          st_G = \<lparr>G_own = [(''T'', [''U'']), (''U'', [])], G_proto = None\<rparr>,
          st_inDegree = [(''T'', Num 1), (''U'', Num 1)]\<rparr>"
  by code_simp

lemma dangling_layers:
  "layering \<lparr>G_own = [(''T'', [''U'']), (''U'', [])], G_proto = None\<rparr>
     [(''T'', Num 1), (''U'', Num 1)]
     (initialQueue [newNode ''T'', newNode ''U''] [(''T'', Num 1), (''U'', Num 1)]) = Inr []"
  by code_simp

lemma dangling_result:
  "parseWorkflow canvas (Textual ''T(P.out) U(T.out)'') [process ''P'', process ''T'', process ''U''] =
     Inr \<lparr>nodes = [\<lparr>node_id = ''T'', node_name = ''T'', node_x = 0, node_y = 0,
                      node_width = 180, node_height = 60\<rparr>,
                    \<lparr>node_id = ''U'', node_name = ''U'', node_x = 0, node_y = 0,
                      node_width = 180, node_height = 60\<rparr>],
          edges = [\<lparr>edge_id = ''P->T'', edge_source = ''P'', edge_target = ''T'',
                     edge_startX = 0, edge_startY = 0, edge_endX = 0, edge_endY = 0,
                     edge_controlX = 0, edge_controlY = 0\<rparr>,
                   \<lparr>edge_id = ''T->U'', edge_source = ''T'', edge_target = ''U'',
                     edge_startX = 90, edge_startY = 60, edge_endX = 90, edge_endY = 0,
                     edge_controlX = 105, edge_controlY = 30\<rparr>]\<rparr>"
proof -
  from parseWorkflow_eval [where canvas = canvas, OF dangling_graph] dangling_layers
  have "parseWorkflow canvas (Textual ''T(P.out) U(T.out)'') [process ''P'', process ''T'', process ''U''] =
      Inr \<lparr>nodes = [newNode ''T'', newNode ''U''],
           edges = map (routeEdge [newNode ''T'', newNode ''U''])
             [newEdge ''P'' ''T'', newEdge ''T'' ''U'']\<rparr>"
    by simp
  also have "map (routeEdge [newNode ''T'', newNode ''U'']) [newEdge ''P'' ''T'', newEdge ''T'' ''U''] =
      [\<lparr>edge_id = ''P->T'', edge_source = ''P'', edge_target = ''T'',
                     edge_startX = 0, edge_startY = 0, edge_endX = 0, edge_endY = 0,
                     edge_controlX = 0, edge_controlY = 0\<rparr>,
                   \<lparr>edge_id = ''T->U'', edge_source = ''T'', edge_target = ''U'',
                     edge_startX = 90, edge_startY = 60, edge_endX = 90, edge_endY = 0,
                     edge_controlX = 105, edge_controlY = 30\<rparr>]"
    by (simp add: routeEdge_def layout_eval sqrt_3600)
  finally show ?thesis by (simp add: newNode_def NODE_WIDTH_def NODE_HEIGHT_def)
qed

text \<open>
  With a name that \<^verbatim>\<open>Object.prototype\<close> has: \<^verbatim>\<open>G\<close> is a plain object, so
  \<^verbatim>\<open>G['toString']\<close> is the inherited function although no call set that key; it is truthy
  and has no \<^verbatim>\<open>includes\<close>, and the guard \<^verbatim>\<open>G[sourceProcessName] && !G[sourceProcessName].includes(...)\<close>
  throws.
\<close>

lemma inherited_graph:
  "buildGraph (map proc_name [process ''toString'', process ''T'']) ''T(toString.out)'' = Inl TypeError"
  by code_simp

lemma inherited_calls:
  "calledProcessInstances (map proc_name [process ''toString'', process ''T'']) ''T(toString.out)'' =
     [\<lparr>call_name = ''T'', call_index = 0, call_inputs = ''toString.out''\<rparr>]"
  by code_simp

lemma inherited_refs: "execRefs ''toString.out'' = [''toString'']"
  by code_simp

lemma buildGraph_throws:
  "buildGraph (map proc_name processes) src = Inl err \<Longrightarrow>
   parseWorkflow canvas (Textual src) processes = Inl err"
  by (simp add: parseWorkflow_def)

text \<open>
  C3, where the code departs from it. For the declared processes \<^verbatim>\<open>toString\<close> and T and
  the text \<^verbatim>\<open>T(toString.out)\<close>, T is the only recognized call and its argument text refers
  to \<^verbatim>\<open>toString\<close>, which is declared and never called; \<^verbatim>\<open>parseWorkflow\<close> throws a
  \<^verbatim>\<open>TypeError\<close> and returns no edge, and the effect hook records the error and keeps the
  empty graph.
\<close>

theorem inherited_source_name_throws:
  "calledProcessInstances (map proc_name [process ''toString'', process ''T'']) ''T(toString.out)'' =
     [\<lparr>call_name = ''T'', call_index = 0, call_inputs = ''toString.out''\<rparr>] \<and>
   execRefs ''toString.out'' = [''toString''] \<and>
   parseWorkflow canvas (Textual ''T(toString.out)'') [process ''toString'', process ''T''] =
     Inl TypeError \<and>
   runEffect canvas (Textual ''T(toString.out)'') [process ''toString'', process ''T''] =
     \<lparr>visData = \<lparr>nodes = [], edges = []\<rparr>, errorVisualizing = Some TypeError,
      canvasSizeForLayout = canvas\<rparr>"
  using buildGraph_throws [OF inherited_graph, of canvas] inherited_calls inherited_refs
  by (simp add: runEffect_def)

section \<open>Input that is no string\<close>

text \<open>
  C10. When the workflow source is not a string, \<^verbatim>\<open>parseWorkflow\<close> returns no nodes and
  no edges and throws nothing; the effect hook shows no error.
\<close>

theorem non_textual_source:
  "parseWorkflow canvas NonTextual processes = Inr \<lparr>nodes = [], edges = []\<rparr> \<and>
   visData (runEffect canvas NonTextual processes) = \<lparr>nodes = [], edges = []\<rparr> \<and>
   errorVisualizing (runEffect canvas NonTextual processes) = None"
  by (simp add: parseWorkflow_def runEffect_def)

end
